theory Spec2Isabelle
  imports Main
begin

unbundle bit_operations_syntax

section \<open>The LRU trie of hyphe-traph\<close>

text \<open>
  The development follows \<^verbatim>\<open>traph/lru_trie_node.py\<close>, \<^verbatim>\<open>traph/lru_trie.py\<close> and
  \<^verbatim>\<open>traph/traph.py\<close>. A node object of the source is a record holding its block
  index (\<^verbatim>\<open>None\<close> until it is read or written), its \<^verbatim>\<open>exists\<close> flag and its data;
  every method that touches the storage takes the storage and returns the new one.
  Exceptions are values of type \<open>error\<close>; a loop that follows pointers of the
  storage may run forever on a cyclic storage, so it returns an \<open>option\<close> whose
  \<open>None\<close> is "does not return".
\<close>

datatype error =
    LRUTrieNodeTraversalException
  | StructError
  | TraphException
  | KeyError
  | TypeError
  | OSError

subsection \<open>Record format (\<^verbatim>\<open>lru_trie_node.py\<close>)\<close>

text \<open>
  \<^verbatim>\<open>LRU_TRIE_NODE_FORMAT = '2B3Q'\<close>: a struct format is a list of (repeat count,
  type code) items; every repetition of a code is one packed value.
\<close>

datatype struct_code = B | Q

definition LRU_TRIE_NODE_FORMAT :: "(nat \<times> struct_code) list" where
  "LRU_TRIE_NODE_FORMAT = [(2, B), (3, Q)]"

definition struct_fields :: "(nat \<times> struct_code) list \<Rightarrow> struct_code list" where
  "struct_fields fmt = concat (map (\<lambda>(k, c). replicate k c) fmt)"

definition LRU_TRIE_NODE_CHAR :: nat where "LRU_TRIE_NODE_CHAR = 0"
definition LRU_TRIE_NODE_FLAGS :: nat where "LRU_TRIE_NODE_FLAGS = 1"
definition LRU_TRIE_NODE_NEXT_BLOCK :: nat where "LRU_TRIE_NODE_NEXT_BLOCK = 2"
definition LRU_TRIE_NODE_CHILD_BLOCK :: nat where "LRU_TRIE_NODE_CHILD_BLOCK = 3"
definition LRU_TRIE_NODE_PARENT_BLOCK :: nat where "LRU_TRIE_NODE_PARENT_BLOCK = 4"

definition LRU_TRIE_NODE_FLAG_PAGE :: nat where "LRU_TRIE_NODE_FLAG_PAGE = 0"

text \<open>
  The data of a node, \<^verbatim>\<open>self.data\<close>, is the list of the five values at the positions
  above; the record names them. The field \<open>nwebentity\<close> is not one of them:

  Modelled from the spec: the methods \<^verbatim>\<open>has_webentity\<close>, \<^verbatim>\<open>webentity\<close>,
  \<^verbatim>\<open>set_webentity\<close>, \<^verbatim>\<open>has_webentity_creation_rule\<close> and
  \<^verbatim>\<open>flag_as_webentity_creation_rule\<close> are called by \<^verbatim>\<open>lru_trie.py\<close> and
  \<^verbatim>\<open>traph.py\<close> but are missing from \<^verbatim>\<open>lru_trie_node.py\<close>. Section 3 of the
  specification gives a node a \<^verbatim>\<open>webentity_id\<close> "meaningful only when
  has_webentity is set" and the flags \<^verbatim>\<open>has_webentity\<close> and
  \<^verbatim>\<open>is_webentity_creation_rule\<close>; the positions of the two flags are not given and
  are taken as the next two bits.
\<close>

record node_data =
  nchar :: nat
  nflags :: nat
  nnext :: nat
  nchild :: nat
  nparent :: nat
  nwebentity :: nat

definition pack :: "node_data \<Rightarrow> nat list" where
  "pack d = [nchar d, nflags d, nnext d, nchild d, nparent d]"

definition LRU_TRIE_NODE_FLAG_WEBENTITY :: nat where
  "LRU_TRIE_NODE_FLAG_WEBENTITY = 1"

definition LRU_TRIE_NODE_FLAG_WEBENTITY_CREATION_RULE :: nat where
  "LRU_TRIE_NODE_FLAG_WEBENTITY_CREATION_RULE = 2"

text \<open>The helpers \<^verbatim>\<open>flag\<close>, \<^verbatim>\<open>unflag\<close> and \<^verbatim>\<open>test\<close>, on the flags register.\<close>

definition flag :: "nat \<Rightarrow> nat \<Rightarrow> nat" where
  "flag register pos = register OR push_bit pos 1"

definition unflag :: "nat \<Rightarrow> nat \<Rightarrow> nat" where
  "unflag register pos = nat (int register AND NOT (push_bit pos 1))"

definition test :: "nat \<Rightarrow> nat \<Rightarrow> bool" where
  "test register pos = (drop_bit pos register AND 1 \<noteq> 0)"

subsection \<open>Block storage\<close>

text \<open>
  Modelled from the spec: \<^verbatim>\<open>memory_storage.py\<close> and \<^verbatim>\<open>file_storage.py\<close> are
  missing. Section 4.1: \<^verbatim>\<open>read(block_index)\<close> returns the block, or absent if the
  index is past the end of the store; \<^verbatim>\<open>write(bytes, block_index | append)\<close>
  overwrites in place if an index is given, and otherwise appends at the end of the
  store and returns the new index. The specification does not say what a write at an
  index past the end does; the model leaves the blocks as they are there.
  A block is kept as the data it unpacks to. The field \<open>trace\<close> is not part of the
  store: it lists the contents of the store after each write, in order, so that the
  order of the writes of an operation can be stated.
\<close>

record storage =
  blocks :: "node_data list"
  trace :: "node_data list list"

definition storage_read :: "storage \<Rightarrow> nat \<Rightarrow> node_data option" where
  "storage_read st b = (if b < length (blocks st) then Some (blocks st ! b) else None)"

definition storage_write :: "storage \<Rightarrow> node_data \<Rightarrow> nat option \<Rightarrow> nat \<times> storage" where
  "storage_write st d bo =
     (case bo of
        None \<Rightarrow>
          (let bs = blocks st @ [d]
           in (length (blocks st), st\<lparr>blocks := bs, trace := trace st @ [bs]\<rparr>))
      | Some b \<Rightarrow>
          (let bs = (blocks st)[b := d]
           in (b, st\<lparr>blocks := bs, trace := trace st @ [bs]\<rparr>)))"

definition empty_storage :: storage where
  "empty_storage = \<lparr>blocks = [], trace = []\<rparr>"

subsection \<open>Node objects (\<^verbatim>\<open>LRUTrieNode\<close>)\<close>

record lru_trie_node =
  block :: "nat option"
  exists :: bool
  data :: node_data

text \<open>\<^verbatim>\<open>__set_default_data\<close>: \<^verbatim>\<open>char or 0\<close> is 0 for \<^verbatim>\<open>None\<close> and for 0.\<close>

definition set_default_data :: "nat option \<Rightarrow> node_data" where
  "set_default_data c =
     \<lparr>nchar = (case c of None \<Rightarrow> 0 | Some k \<Rightarrow> k), nflags = 0, nnext = 0, nchild = 0,
      nparent = 0, nwebentity = 0\<rparr>"

definition node_read :: "storage \<Rightarrow> lru_trie_node \<Rightarrow> nat \<Rightarrow> lru_trie_node" where
  "node_read st n b =
     (case storage_read st b of
        None \<Rightarrow> n\<lparr>exists := False, data := set_default_data None\<rparr>
      | Some d \<Rightarrow> n\<lparr>exists := True, data := d, block := Some b\<rparr>)"

text \<open>The constructor, \<^verbatim>\<open>LRUTrieNode(storage, char=c)\<close> and \<^verbatim>\<open>LRUTrieNode(storage, block=b)\<close>.\<close>

definition new_node :: "nat option \<Rightarrow> lru_trie_node" where
  "new_node c = \<lparr>block = None, exists = False, data = set_default_data c\<rparr>"

definition node_at :: "storage \<Rightarrow> nat \<Rightarrow> lru_trie_node" where
  "node_at st b = node_read st (new_node None) b"

definition node_write :: "storage \<Rightarrow> lru_trie_node \<Rightarrow> lru_trie_node \<times> storage" where
  "node_write st n =
     (let (b, st') = storage_write st (data n) (block n)
      in (n\<lparr>block := Some b, exists := True\<rparr>, st'))"

definition is_root :: "lru_trie_node \<Rightarrow> bool" where
  "is_root n = (block n = Some 0)"

definition is_page :: "lru_trie_node \<Rightarrow> bool" where
  "is_page n = test (nflags (data n)) LRU_TRIE_NODE_FLAG_PAGE"

definition flag_as_page :: "lru_trie_node \<Rightarrow> lru_trie_node" where
  "flag_as_page n = n\<lparr>data := (data n)\<lparr>nflags := flag (nflags (data n)) LRU_TRIE_NODE_FLAG_PAGE\<rparr>\<rparr>"

definition unflag_as_page :: "lru_trie_node \<Rightarrow> lru_trie_node" where
  "unflag_as_page n = n\<lparr>data := (data n)\<lparr>nflags := unflag (nflags (data n)) LRU_TRIE_NODE_FLAG_PAGE\<rparr>\<rparr>"

definition node_char :: "lru_trie_node \<Rightarrow> nat" where
  "node_char n = nchar (data n)"

definition set_char :: "lru_trie_node \<Rightarrow> nat \<Rightarrow> lru_trie_node" where
  "set_char n c = n\<lparr>data := (data n)\<lparr>nchar := c\<rparr>\<rparr>"

definition has_next :: "lru_trie_node \<Rightarrow> bool" where
  "has_next n = (nnext (data n) \<noteq> 0)"

definition next_of :: "lru_trie_node \<Rightarrow> nat option" where
  "next_of n = (if nnext (data n) = 0 then None else Some (nnext (data n)))"

definition set_next :: "lru_trie_node \<Rightarrow> nat \<Rightarrow> lru_trie_node" where
  "set_next n b = n\<lparr>data := (data n)\<lparr>nnext := b\<rparr>\<rparr>"

text \<open>
  \<^verbatim>\<open>read_next\<close> raises when there is no next sibling (\<^verbatim>\<open>has_next\<close> is false exactly
  when \<^verbatim>\<open>next()\<close> is \<^verbatim>\<open>None\<close>) and reads the block \<^verbatim>\<open>next()\<close> otherwise.
\<close>

definition read_next :: "storage \<Rightarrow> lru_trie_node \<Rightarrow> error + lru_trie_node" where
  "read_next st n =
     (case next_of n of
        None \<Rightarrow> Inl LRUTrieNodeTraversalException
      | Some b \<Rightarrow> Inr (node_read st n b))"

definition has_child :: "lru_trie_node \<Rightarrow> bool" where
  "has_child n = (nchild (data n) \<noteq> 0)"

definition child_of :: "lru_trie_node \<Rightarrow> nat option" where
  "child_of n = (if nchild (data n) = 0 then None else Some (nchild (data n)))"

definition set_child :: "lru_trie_node \<Rightarrow> nat \<Rightarrow> lru_trie_node" where
  "set_child n b = n\<lparr>data := (data n)\<lparr>nchild := b\<rparr>\<rparr>"

definition read_child :: "storage \<Rightarrow> lru_trie_node \<Rightarrow> error + lru_trie_node" where
  "read_child st n =
     (case child_of n of
        None \<Rightarrow> Inl LRUTrieNodeTraversalException
      | Some b \<Rightarrow> Inr (node_read st n b))"

definition parent_of :: "lru_trie_node \<Rightarrow> nat" where
  "parent_of n = nparent (data n)"

definition set_parent :: "lru_trie_node \<Rightarrow> nat \<Rightarrow> lru_trie_node" where
  "set_parent n b = n\<lparr>data := (data n)\<lparr>nparent := b\<rparr>\<rparr>"

definition read_parent :: "storage \<Rightarrow> lru_trie_node \<Rightarrow> lru_trie_node" where
  "read_parent st n = node_read st n (parent_of n)"

text \<open>The node methods the source calls and does not define (see above).\<close>

definition has_webentity :: "lru_trie_node \<Rightarrow> bool" where
  "has_webentity n = test (nflags (data n)) LRU_TRIE_NODE_FLAG_WEBENTITY"

definition webentity :: "lru_trie_node \<Rightarrow> nat" where
  "webentity n = nwebentity (data n)"

definition set_webentity :: "lru_trie_node \<Rightarrow> nat \<Rightarrow> lru_trie_node" where
  "set_webentity n w =
     n\<lparr>data := (data n)\<lparr>nflags := flag (nflags (data n)) LRU_TRIE_NODE_FLAG_WEBENTITY,
                        nwebentity := w\<rparr>\<rparr>"

definition has_webentity_creation_rule :: "lru_trie_node \<Rightarrow> bool" where
  "has_webentity_creation_rule n =
     test (nflags (data n)) LRU_TRIE_NODE_FLAG_WEBENTITY_CREATION_RULE"

definition flag_as_webentity_creation_rule :: "lru_trie_node \<Rightarrow> lru_trie_node" where
  "flag_as_webentity_creation_rule n =
     n\<lparr>data := (data n)\<lparr>nflags :=
          flag (nflags (data n)) LRU_TRIE_NODE_FLAG_WEBENTITY_CREATION_RULE\<rparr>\<rparr>"

subsection \<open>Walk history\<close>

text \<open>
  Modelled from the spec: \<^verbatim>\<open>lru_trie_walk_history.py\<close> is missing. Section 4.4: the
  history holds the nearest webentity seen along the walk (id, LRU prefix, position),
  where a later observation overrides an earlier one, the rule prefixes of the creation
  rules seen, which accumulate in root-to-leaf order, and whether \<^verbatim>\<open>add_page\<close> newly
  set the page flag. The specification gives no initial position; the model starts at
  \<open>-1\<close>, so that \<open>webentity_position + 1\<close> is 0 before any webentity is seen.
\<close>

record walk_history =
  webentity_id :: "nat option"
  webentity_lru_prefix :: string
  webentity_position :: int
  rules_to_apply :: "string list"
  page_was_created :: bool

definition LRUTrieWalkHistory :: walk_history where
  "LRUTrieWalkHistory =
     \<lparr>webentity_id = None, webentity_lru_prefix = [], webentity_position = -1,
      rules_to_apply = [], page_was_created = False\<rparr>"

definition update_webentity :: "walk_history \<Rightarrow> nat \<Rightarrow> string \<Rightarrow> nat \<Rightarrow> walk_history" where
  "update_webentity h w prefix position =
     h\<lparr>webentity_id := Some w, webentity_lru_prefix := prefix,
       webentity_position := int position\<rparr>"

definition update_webentity_creation_rule :: "walk_history \<Rightarrow> string \<Rightarrow> nat \<Rightarrow> walk_history" where
  "update_webentity_creation_rule h rule_prefix position =
     h\<lparr>rules_to_apply := rules_to_apply h @ [rule_prefix]\<rparr>"

subsection \<open>The trie (\<^verbatim>\<open>LRUTrie\<close>)\<close>

text \<open>
  Modelled from the spec: the constant \<^verbatim>\<open>LRU_TRIE_NODE_HEADER_BLOCKS\<close> is imported
  from \<^verbatim>\<open>lru_trie_node.py\<close>, which does not define it. Section 3: "Block 0 is
  reserved as a NULL sentinel; block 1 onward holds real records".
\<close>

definition LRU_TRIE_NODE_HEADER_BLOCKS :: nat where
  "LRU_TRIE_NODE_HEADER_BLOCKS = 1"

definition root :: "storage \<Rightarrow> lru_trie_node" where
  "root st = node_at st LRU_TRIE_NODE_HEADER_BLOCKS"

text \<open>\<^verbatim>\<open>__ensure_headers\<close>: every header block that cannot be read is written.\<close>

definition ensure_headers :: "storage \<Rightarrow> storage" where
  "ensure_headers st =
     fold (\<lambda>header_block st.
             let header_node = node_at st header_block
             in if \<not> exists header_node then snd (node_write st header_node) else st)
          [0 ..< LRU_TRIE_NODE_HEADER_BLOCKS] st"

text \<open>The constructor of the trie over a new storage.\<close>

definition LRUTrie :: "storage \<Rightarrow> storage" where
  "LRUTrie st = ensure_headers st"

text \<open>
  The loop of \<^verbatim>\<open>__ensure_char_from_siblings\<close> over the siblings: it returns the node
  carrying the char and \<open>True\<close>, or the last sibling and \<open>False\<close> (the \<^verbatim>\<open>break\<close>).
\<close>

partial_function (option) follow_siblings ::
  "storage \<Rightarrow> lru_trie_node \<Rightarrow> nat \<Rightarrow> (error + bool \<times> lru_trie_node) option" where
  "follow_siblings st n c =
     (if node_char n = c then Some (Inr (True, n))
      else if has_next n then
        (case read_next st n of
           Inl e \<Rightarrow> Some (Inl e)
         | Inr n' \<Rightarrow> follow_siblings st n' c)
      else Some (Inr (False, n)))"

text \<open>
  \<^verbatim>\<open>set_parent\<close> and \<^verbatim>\<open>set_next\<close> are given \<^verbatim>\<open>node.block\<close> of a written node; were it
  \<^verbatim>\<open>None\<close>, the following \<^verbatim>\<open>write\<close> could not pack the data.
\<close>

definition ensure_char_from_siblings ::
  "storage \<Rightarrow> lru_trie_node \<Rightarrow> nat \<Rightarrow> (error + lru_trie_node \<times> storage) option" where
  "ensure_char_from_siblings st n c =
     (if \<not> exists n then Some (Inr (node_write st (set_char n c)))
      else
        (case follow_siblings st n c of
           None \<Rightarrow> None
         | Some (Inl e) \<Rightarrow> Some (Inl e)
         | Some (Inr (True, n')) \<Rightarrow> Some (Inr (n', st))
         | Some (Inr (False, n')) \<Rightarrow>
             (let sibling = set_parent (new_node (Some c)) (parent_of n');
                  (sibling, st1) = node_write st sibling
              in case block sibling of
                   None \<Rightarrow> Some (Inl StructError)
                 | Some sb \<Rightarrow>
                     (let (n'', st2) = node_write st1 (set_next n' sb)
                      in Some (Inr (sibling, st2))))))"

text \<open>
  Lines 102 to 115 of \<^verbatim>\<open>add_lru\<close>, at the node for \<^verbatim>\<open>lru[i]\<close>, with \<open>pre\<close> the part
  \<^verbatim>\<open>lru[:i]\<close> and \<open>x\<close> the char \<^verbatim>\<open>lru[i]\<close>.
  Modelled from the spec: \<^verbatim>\<open>webentity_creation_rule()\<close> of the node is missing;
  section 4.3 has the walk append the rule prefix of the node, which is the LRU up
  to and including its char.
\<close>

definition track :: "lru_trie_node \<Rightarrow> string \<Rightarrow> char \<Rightarrow> walk_history \<Rightarrow> walk_history" where
  "track n pre x h =
     (let h1 = (if has_webentity n then update_webentity h (webentity n) pre (length pre)
                else h)
      in if has_webentity_creation_rule n
         then update_webentity_creation_rule h1 (pre @ [x]) (length pre)
         else h1)"

text \<open>
  The first loop of \<^verbatim>\<open>add_lru\<close>, descending the trie: \<open>pre\<close> is \<^verbatim>\<open>lru[:i]\<close> and the
  list argument is \<^verbatim>\<open>lru[i:]\<close>. It returns the node, the history, the part of the LRU
  that is left (\<^verbatim>\<open>lru[i:]\<close> at the \<^verbatim>\<open>break\<close>) and the storage.
\<close>

fun add_lru_descend ::
  "storage \<Rightarrow> string \<Rightarrow> string \<Rightarrow> lru_trie_node \<Rightarrow> walk_history
   \<Rightarrow> (error + lru_trie_node \<times> walk_history \<times> string \<times> storage) option" where
  "add_lru_descend st pre [] n h = Some (Inr (n, h, [], st))"
| "add_lru_descend st pre (x # xs) n h =
     (case ensure_char_from_siblings st n (of_char x) of
        None \<Rightarrow> None
      | Some (Inl e) \<Rightarrow> Some (Inl e)
      | Some (Inr (n1, st1)) \<Rightarrow>
          (let h1 = track n1 pre x h
           in if xs \<noteq> [] \<and> has_child n1 then
                (case read_child st1 n1 of
                   Inl e \<Rightarrow> Some (Inl e)
                 | Inr n2 \<Rightarrow> add_lru_descend st1 (pre @ [x]) xs n2 h1)
              else Some (Inr (n1, h1, xs, st1))))"

text \<open>The second loop of \<^verbatim>\<open>add_lru\<close>, adding the missing part below \<open>n\<close>.\<close>

fun add_lru_extend ::
  "storage \<Rightarrow> string \<Rightarrow> lru_trie_node \<Rightarrow> error + lru_trie_node \<times> storage" where
  "add_lru_extend st [] n = Inr (n, st)"
| "add_lru_extend st (x # xs) n =
     (case block n of
        None \<Rightarrow> Inl StructError
      | Some pb \<Rightarrow>
          (let (child, st1) = node_write st (set_parent (new_node (Some (of_char x))) pb)
           in case block child of
                None \<Rightarrow> Inl StructError
              | Some cb \<Rightarrow>
                  (let (n', st2) = node_write st1 (set_child n cb)
                   in add_lru_extend st2 xs child)))"

definition add_lru ::
  "storage \<Rightarrow> string \<Rightarrow> (error + lru_trie_node \<times> walk_history \<times> storage) option" where
  "add_lru st lru =
     (case add_lru_descend st [] lru (root st) LRUTrieWalkHistory of
        None \<Rightarrow> None
      | Some (Inl e) \<Rightarrow> Some (Inl e)
      | Some (Inr (n, h, rest, st1)) \<Rightarrow>
          (case add_lru_extend st1 rest n of
             Inl e \<Rightarrow> Some (Inl e)
           | Inr (n', st2) \<Rightarrow> Some (Inr (n', h, st2))))"

definition add_page ::
  "storage \<Rightarrow> string \<Rightarrow> (error + lru_trie_node \<times> walk_history \<times> storage) option" where
  "add_page st lru =
     (case add_lru st lru of
        None \<Rightarrow> None
      | Some (Inl e) \<Rightarrow> Some (Inl e)
      | Some (Inr (n, h, st1)) \<Rightarrow>
          (if \<not> is_page n then
             (let (n', st2) = node_write st1 (flag_as_page n)
              in Some (Inr (n', h\<lparr>page_was_created := True\<rparr>, st2)))
           else Some (Inr (n, h, st1))))"

text \<open>
  \<^verbatim>\<open>lru_node\<close>: the inner \<^verbatim>\<open>while\<close> loop over the siblings, then the loop over the
  chars. The result \<open>None\<close> inside is Python's \<^verbatim>\<open>None\<close>, the absent node.
\<close>

partial_function (option) lru_node_siblings ::
  "storage \<Rightarrow> lru_trie_node \<Rightarrow> nat \<Rightarrow> (error + lru_trie_node option) option" where
  "lru_node_siblings st n c =
     (if node_char n \<noteq> c then
        (if \<not> has_next n then Some (Inr None)
         else
           (case read_next st n of
              Inl e \<Rightarrow> Some (Inl e)
            | Inr n' \<Rightarrow> lru_node_siblings st n' c))
      else Some (Inr (Some n)))"

fun lru_node_from ::
  "storage \<Rightarrow> lru_trie_node \<Rightarrow> string \<Rightarrow> (error + lru_trie_node option) option" where
  "lru_node_from st n [] = Some (Inr (Some n))"
| "lru_node_from st n (x # xs) =
     (case lru_node_siblings st n (of_char x) of
        None \<Rightarrow> None
      | Some (Inl e) \<Rightarrow> Some (Inl e)
      | Some (Inr None) \<Rightarrow> Some (Inr None)
      | Some (Inr (Some n1)) \<Rightarrow>
          (if xs \<noteq> [] then
             (if \<not> has_child n1 then Some (Inr None)
              else
                (case read_child st n1 of
                   Inl e \<Rightarrow> Some (Inl e)
                 | Inr n2 \<Rightarrow> lru_node_from st n2 xs))
           else lru_node_from st n1 xs))"

definition lru_node :: "storage \<Rightarrow> string \<Rightarrow> (error + lru_trie_node option) option" where
  "lru_node st lru = lru_node_from st (root st) lru"

section \<open>The shape of a well-formed trie storage\<close>

text \<open>
  The definitions of this section are not taken from the source: they describe the
  storages the trie builds, block by block. \<open>chain bs b\<close> lists the blocks of the
  sibling list from block \<open>b\<close> on, following the \<open>next\<close> pointers as long as they point
  forward and inside the storage.
\<close>

function chain :: "node_data list \<Rightarrow> nat \<Rightarrow> nat list" where
  "chain bs b =
     (if b < nnext (bs ! b) \<and> nnext (bs ! b) < length bs
      then b # chain bs (nnext (bs ! b)) else [b])"
  by pat_completeness auto
termination
  by (relation "measure (\<lambda>(bs, b). length bs - b)") auto

declare chain.simps [simp del]

text \<open>A pointer of block \<open>b\<close> is null or points forward, inside the storage.\<close>

definition pointer_ok :: "node_data list \<Rightarrow> nat \<Rightarrow> nat \<Rightarrow> bool" where
  "pointer_ok bs b p = (p = 0 \<or> (b < p \<and> p < length bs))"

text \<open>The head of the sibling list of the children of \<open>p\<close>; the root list is under 0.\<close>

definition list_head :: "node_data list \<Rightarrow> nat \<Rightarrow> nat" where
  "list_head bs p = (if p = 0 then LRU_TRIE_NODE_HEADER_BLOCKS else nchild (bs ! p))"

text \<open>
  What holds of one node block \<open>b\<close>: its pointers are null or forward, the next sibling
  has the same parent, the child has \<open>b\<close> as its parent, the parent is null or an
  earlier node block with a child, and \<open>b\<close> is on the sibling list of the children of
  its parent.
\<close>

definition node_inv :: "node_data list \<Rightarrow> nat \<Rightarrow> bool" where
  "node_inv bs b =
     (pointer_ok bs b (nnext (bs ! b))
      \<and> pointer_ok bs b (nchild (bs ! b))
      \<and> (nnext (bs ! b) \<noteq> 0 \<longrightarrow> nparent (bs ! (nnext (bs ! b))) = nparent (bs ! b))
      \<and> (nchild (bs ! b) \<noteq> 0 \<longrightarrow> nparent (bs ! (nchild (bs ! b))) = b)
      \<and> (nparent (bs ! b) \<noteq> 0 \<longrightarrow>
           LRU_TRIE_NODE_HEADER_BLOCKS \<le> nparent (bs ! b) \<and> nparent (bs ! b) < b
           \<and> nchild (bs ! (nparent (bs ! b))) \<noteq> 0)
      \<and> b \<in> set (chain bs (list_head bs (nparent (bs ! b)))))"

text \<open>
  A well-formed storage: the header blocks are written, every node block is
  well-formed, and two node blocks with the same parent and the same char are the same
  block.
\<close>

definition trie_inv :: "node_data list \<Rightarrow> bool" where
  "trie_inv bs =
     (LRU_TRIE_NODE_HEADER_BLOCKS \<le> length bs
      \<and> (\<forall>b \<in> set [LRU_TRIE_NODE_HEADER_BLOCKS ..< length bs]. node_inv bs b)
      \<and> (\<forall>b \<in> set [LRU_TRIE_NODE_HEADER_BLOCKS ..< length bs].
           \<forall>b' \<in> set [LRU_TRIE_NODE_HEADER_BLOCKS ..< length bs].
             nparent (bs ! b) = nparent (bs ! b') \<and> nchar (bs ! b) = nchar (bs ! b')
             \<longrightarrow> b = b'))"

text \<open>The node object that a read of block \<open>b\<close> gives.\<close>

definition the_node :: "node_data list \<Rightarrow> nat \<Rightarrow> lru_trie_node" where
  "the_node bs b = \<lparr>block = Some b, exists = True, data = bs ! b\<rparr>"

text \<open>The chars of the sibling list from block \<open>b\<close> on, in the order of the list.\<close>

definition sibling_chars :: "node_data list \<Rightarrow> nat \<Rightarrow> nat list" where
  "sibling_chars bs b = map (\<lambda>x. nchar (bs ! x)) (chain bs b)"

text \<open>The first block of the sibling list from \<open>b\<close> on that carries the char \<open>c\<close>.\<close>

definition find_sibling :: "node_data list \<Rightarrow> nat \<Rightarrow> nat \<Rightarrow> nat option" where
  "find_sibling bs b c = find (\<lambda>x. nchar (bs ! x) = c) (chain bs b)"

text \<open>
  The block that a non-empty LRU leads to from the head \<open>h\<close> of a sibling list: the
  sibling with the first char, then its child list for the rest.
\<close>

fun resolve :: "node_data list \<Rightarrow> nat \<Rightarrow> string \<Rightarrow> nat option" where
  "resolve bs h [] = None"
| "resolve bs h [x] = find_sibling bs h (of_char x)"
| "resolve bs h (x # y # ys) =
     (case find_sibling bs h (of_char x) of
        None \<Rightarrow> None
      | Some b \<Rightarrow> if nchild (bs ! b) = 0 then None else resolve bs (nchild (bs ! b)) (y # ys))"

text \<open>
  A storage grows into another one: blocks are only appended, chars and parents stay,
  and a pointer changes only from null to one of the appended blocks.
\<close>

definition grows :: "node_data list \<Rightarrow> node_data list \<Rightarrow> bool" where
  "grows bs bs' =
     (length bs \<le> length bs'
      \<and> (\<forall>b \<in> set [0 ..< length bs].
           nchar (bs' ! b) = nchar (bs ! b)
           \<and> nparent (bs' ! b) = nparent (bs ! b)
           \<and> (if nnext (bs ! b) = 0
               then nnext (bs' ! b) = 0 \<or> length bs \<le> nnext (bs' ! b)
               else nnext (bs' ! b) = nnext (bs ! b))
           \<and> (if nchild (bs ! b) = 0
               then nchild (bs' ! b) = 0 \<or> length bs \<le> nchild (bs' ! b)
               else nchild (bs' ! b) = nchild (bs ! b))))"

text \<open>
  The blocks after a new sibling with char \<open>c\<close> is written and then linked behind the
  last sibling \<open>t\<close>, and after a new child with char \<open>c\<close> is written and then linked
  under \<open>p\<close>.
\<close>

definition new_block :: "nat \<Rightarrow> nat \<Rightarrow> node_data" where
  "new_block c p = (set_default_data (Some c))\<lparr>nparent := p\<rparr>"

definition add_sibling :: "node_data list \<Rightarrow> nat \<Rightarrow> nat \<Rightarrow> node_data list" where
  "add_sibling bs t c =
     (bs @ [new_block c (nparent (bs ! t))])[t := (bs ! t)\<lparr>nnext := length bs\<rparr>]"

definition add_child :: "node_data list \<Rightarrow> nat \<Rightarrow> nat \<Rightarrow> node_data list" where
  "add_child bs p c = (bs @ [new_block c p])[p := (bs ! p)\<lparr>nchild := length bs\<rparr>]"

text \<open>
  \<open>extends\<close> is the growth of a storage by an insertion: it also keeps the flags and the
  webentity ids of the blocks that were there, and the new blocks have no flag.
\<close>

definition extends :: "node_data list \<Rightarrow> node_data list \<Rightarrow> bool" where
  "extends bs bs' =
     (grows bs bs'
      \<and> (\<forall>b \<in> set [0 ..< length bs].
            nflags (bs' ! b) = nflags (bs ! b) \<and> nwebentity (bs' ! b) = nwebentity (bs ! b))
      \<and> (\<forall>b \<in> set [length bs ..< length bs']. nflags (bs' ! b) = 0))"

text \<open>
  No stored pointer references an unwritten block: every \<open>next\<close>, \<open>child\<close> and
  \<open>parent\<close> of every block is the index of a block of the storage (block 0 for null).
\<close>

definition no_dangling :: "node_data list \<Rightarrow> bool" where
  "no_dangling bs =
     (\<forall>b \<in> set [0 ..< length bs].
        nnext (bs ! b) < length bs \<and> nchild (bs ! b) < length bs \<and> nparent (bs ! b) < length bs)"

text \<open>
  The writes between a storage and a later one: the later trace continues the earlier
  one, and \<open>writes_since\<close> lists the contents after each of the new writes.
\<close>

definition writes_since :: "storage \<Rightarrow> storage \<Rightarrow> node_data list list" where
  "writes_since st st' = drop (length (trace st)) (trace st')"

definition ordered_writes :: "storage \<Rightarrow> storage \<Rightarrow> bool" where
  "ordered_writes st st' =
     (take (length (trace st)) (trace st') = trace st
      \<and> (\<forall>s \<in> set (writes_since st st'). no_dangling s))"

text \<open>A sequence of \<^verbatim>\<open>add_lru\<close> calls, one after the other.\<close>

fun add_lrus :: "storage \<Rightarrow> string list \<Rightarrow> (error + storage) option" where
  "add_lrus st [] = Some (Inr st)"
| "add_lrus st (lru # lrus) =
     (case add_lru st lru of
        None \<Rightarrow> None
      | Some (Inl e) \<Rightarrow> Some (Inl e)
      | Some (Inr (n, h, st1)) \<Rightarrow> add_lrus st1 lrus)"

text \<open>
  The history a walk from the head \<open>h\<close> of a sibling list collects along the part of the
  path of the LRU that is there: \<open>track\<close> at every node of the path, in root-to-leaf
  order; \<open>pre\<close> is the part of the LRU above \<open>h\<close>.
\<close>

fun walk_history_from ::
  "node_data list \<Rightarrow> nat \<Rightarrow> string \<Rightarrow> string \<Rightarrow> walk_history \<Rightarrow> walk_history" where
  "walk_history_from bs h pre [] hist = hist"
| "walk_history_from bs h pre (x # xs) hist =
     (case find_sibling bs h (of_char x) of
        None \<Rightarrow> hist
      | Some z \<Rightarrow>
          (let h1 = track (the_node bs z) pre x hist
           in if xs \<noteq> [] \<and> nchild (bs ! z) \<noteq> 0
              then walk_history_from bs (nchild (bs ! z)) (pre @ [x]) xs h1 else h1))"

text \<open>The blocks after the flags and the webentity id of block \<open>b\<close> are rewritten.\<close>

definition write_flags :: "node_data list \<Rightarrow> nat \<Rightarrow> nat \<Rightarrow> nat \<Rightarrow> node_data list" where
  "write_flags bs b f w = bs[b := (bs ! b)\<lparr>nflags := f, nwebentity := w\<rparr>]"

section \<open>The coordinator (\<^verbatim>\<open>traph.py\<close>)\<close>

subsection \<open>Opening the files\<close>

text \<open>
  \<^verbatim>\<open>LRU_TRIE_NODE_BLOCK_SIZE = struct.calcsize(LRU_TRIE_NODE_FORMAT)\<close>, in the native
  mode of \<^verbatim>\<open>struct\<close>: every value is aligned to its size, and nothing is added behind the
  last value.
\<close>

fun struct_size :: "struct_code \<Rightarrow> nat" where
  "struct_size B = 1"
| "struct_size Q = 8"

definition struct_calcsize :: "(nat \<times> struct_code) list \<Rightarrow> nat" where
  "struct_calcsize fmt =
     foldl (\<lambda>offset c. ((offset + struct_size c - 1) div struct_size c) * struct_size c
                         + struct_size c)
           0 (struct_fields fmt)"

definition LRU_TRIE_NODE_BLOCK_SIZE :: nat where
  "LRU_TRIE_NODE_BLOCK_SIZE = struct_calcsize LRU_TRIE_NODE_FORMAT"

text \<open>
  What the constructor sees of the file system: what is at the path of the folder, and
  the sizes in bytes of the two files of the folder, for those that exist.
\<close>

datatype path_kind = NoEntry | Directory | OtherFile

record folder_state =
  folder_kind :: path_kind
  lru_trie_dat :: "nat option"
  link_store_dat :: "nat option"

text \<open>
  Lines 39 to 78 of \<^verbatim>\<open>Traph.__init__\<close>, for a given folder: \<^verbatim>\<open>os.makedirs\<close>, whose
  error is swallowed when the folder is a directory already, the two existence tests,
  the consistency checks, and the opening of the files (\<^verbatim>\<open>'wb+'\<close> truncates or creates a
  file, \<^verbatim>\<open>'rb+'\<close> leaves it as it is). The result is the file system afterwards and the
  error raised or the value of \<^verbatim>\<open>create\<close>. Line 67 is the comment
  \<^verbatim>\<open># TODO: check corruption by mod file size / block\<close>.
\<close>

definition traph_open_files :: "bool \<Rightarrow> folder_state \<Rightarrow> folder_state \<times> (error + bool)" where
  "traph_open_files overwrite fs =
     (case folder_kind fs of
        OtherFile \<Rightarrow> (fs, Inl OSError)
      | _ \<Rightarrow>
          (let fs1 = (if folder_kind fs = NoEntry
                      then \<lparr>folder_kind = Directory, lru_trie_dat = None, link_store_dat = None\<rparr>
                      else fs);
               lru_trie_file_exists = (lru_trie_dat fs1 \<noteq> None);
               link_store_file_exists = (link_store_dat fs1 \<noteq> None)
           in if lru_trie_file_exists \<and> \<not> link_store_file_exists then (fs1, Inl TraphException)
              else if \<not> lru_trie_file_exists \<and> link_store_file_exists
              then (fs1, Inl TraphException)
              else
                (let create = (overwrite \<or> (\<not> lru_trie_file_exists \<and> \<not> link_store_file_exists))
                 in if create
                    then (fs1\<lparr>lru_trie_dat := Some 0, link_store_dat := Some 0\<rparr>, Inr create)
                    else (fs1, Inr create))))"

subsection \<open>State\<close>

text \<open>
  A compiled pattern, \<^verbatim>\<open>re.compile(pattern, re.I)\<close>, is kept as its search function:
  \<^verbatim>\<open>regexp.search(lru)\<close> gives no match, or a match whose \<^verbatim>\<open>group()\<close> is the matched
  text.
\<close>

type_synonym regexp = "string \<Rightarrow> string option"

text \<open>
  Modelled from the spec: \<^verbatim>\<open>traph_write_report.py\<close> is missing. Section 6: a report
  carries the number of pages created, the number of link records created and a mapping
  from webentity id to list of prefixes, and reports are merged by summing.
\<close>

record write_report =
  nb_created_pages :: nat
  nb_created_links :: nat
  created_webentities :: "nat \<rightharpoonup> string list"

definition TraphWriteReport :: write_report where
  "TraphWriteReport = \<lparr>nb_created_pages = 0, nb_created_links = 0, created_webentities = Map.empty\<rparr>"

definition report_add :: "write_report \<Rightarrow> write_report \<Rightarrow> write_report" where
  "report_add r r' =
     \<lparr>nb_created_pages = nb_created_pages r + nb_created_pages r',
      nb_created_links = nb_created_links r + nb_created_links r',
      created_webentities = created_webentities r ++ created_webentities r'\<rparr>"

text \<open>
  Modelled from the spec: \<^verbatim>\<open>link_store.py\<close> and \<^verbatim>\<open>link_store_node.py\<close> are missing.
  Section 3: a link store node holds a target, a next pointer, a weight and flags.
\<close>

record link_store_node =
  link_target :: nat
  link_next :: nat
  link_weight :: nat
  link_flags :: nat

text \<open>
  The state of a \<^verbatim>\<open>Traph\<close>: its two storages, its rules, and

  Modelled from the spec: \<^verbatim>\<open>self.lru_trie.header\<close>, which \<^verbatim>\<open>lru_trie.py\<close> does not
  define; section 3 has a header store a monotonic last-webentity-id counter, which the
  field \<open>last_webentity_id\<close> is.

  The field \<open>added_pages\<close> is not part of the \<^verbatim>\<open>Traph\<close>: it lists the LRUs that
  \<^verbatim>\<open>__add_page\<close> was called with, in order.
\<close>

record traph =
  lru_trie_storage :: storage
  links_store_storage :: "link_store_node list"
  last_webentity_id :: nat
  default_webentity_creation_rule :: regexp
  webentity_creation_rules :: "string \<rightharpoonup> regexp"
  added_pages :: "string list"

subsection \<open>Internal methods\<close>

definition traph__generated_web_entity_id :: "traph \<Rightarrow> nat \<times> traph" where
  "traph__generated_web_entity_id t =
     (last_webentity_id t + 1, t\<lparr>last_webentity_id := last_webentity_id t + 1\<rparr>)"

text \<open>The loop of \<^verbatim>\<open>__add_prefixes\<close>, on the trie storage.\<close>

fun add_prefixes_loop :: "nat \<Rightarrow> storage \<Rightarrow> string list \<Rightarrow> (error + storage) option" where
  "add_prefixes_loop weid st [] = Some (Inr st)"
| "add_prefixes_loop weid st (prefix # prefixes) =
     (case add_lru st prefix of
        None \<Rightarrow> None
      | Some (Inl e) \<Rightarrow> Some (Inl e)
      | Some (Inr (node, history, st1)) \<Rightarrow>
          (let (node', st2) = node_write st1 (set_webentity node weid)
           in add_prefixes_loop weid st2 prefixes))"

definition traph__add_prefixes :: "traph \<Rightarrow> string list \<Rightarrow> (error + nat \<times> traph) option" where
  "traph__add_prefixes t prefixes =
     (let (weid, t1) = traph__generated_web_entity_id t
      in case add_prefixes_loop weid (lru_trie_storage t1) prefixes of
           None \<Rightarrow> None
         | Some (Inl e) \<Rightarrow> Some (Inl e)
         | Some (Inr st) \<Rightarrow> Some (Inr (weid, t1\<lparr>lru_trie_storage := st\<rparr>)))"

text \<open>The lookup \<^verbatim>\<open>self.webentity_creation_rules[rule_prefix]\<close> raises for a missing key.\<close>

definition traph__apply_webentity_creation_rule ::
  "traph \<Rightarrow> string \<Rightarrow> string \<Rightarrow> error + string option" where
  "traph__apply_webentity_creation_rule t rule_prefix lru =
     (case webentity_creation_rules t rule_prefix of
        None \<Rightarrow> Inl KeyError
      | Some regexp \<Rightarrow> Inr (regexp lru))"

definition traph__apply_webentity_default_creation_rule :: "traph \<Rightarrow> string \<Rightarrow> string option" where
  "traph__apply_webentity_default_creation_rule t lru = default_webentity_creation_rule t lru"

text \<open>
  The loop of \<^verbatim>\<open>__add_page\<close> that retrieves the longest candidate prefix; the empty
  string is false in the test \<^verbatim>\<open>candidate_prefix and ...\<close>.
\<close>

fun longest_candidate_prefix_loop :: "traph \<Rightarrow> string list \<Rightarrow> string \<Rightarrow> string \<Rightarrow> error + string" where
  "longest_candidate_prefix_loop t [] lru longest_candidate_prefix = Inr longest_candidate_prefix"
| "longest_candidate_prefix_loop t (rule_prefix # rules) lru longest_candidate_prefix =
     (case traph__apply_webentity_creation_rule t rule_prefix lru of
        Inl e \<Rightarrow> Inl e
      | Inr candidate_prefix \<Rightarrow>
          longest_candidate_prefix_loop t rules lru
            (case candidate_prefix of
               None \<Rightarrow> longest_candidate_prefix
             | Some c \<Rightarrow>
                 if c \<noteq> [] \<and> length c > length longest_candidate_prefix then c
                 else longest_candidate_prefix))"

text \<open>
  \<^verbatim>\<open>helpers.lru_variations\<close> is missing and is a parameter \<open>lru_variations\<close> of the methods
  that reach it: it is given a string, or \<^verbatim>\<open>None\<close> when the default rule does not match,
  and returns the list of the variations or raises.
\<close>

definition expand_prefix ::
  "(string option \<Rightarrow> error + string list) \<Rightarrow> string option \<Rightarrow> error + string list" where
  "expand_prefix lru_variations prefix = lru_variations prefix"

text \<open>Lines 180 to 185 and lines 189 to 193 of \<^verbatim>\<open>__add_page\<close>.\<close>

definition create_webentity_for ::
  "(string option \<Rightarrow> error + string list) \<Rightarrow> traph \<Rightarrow> lru_trie_node \<Rightarrow> write_report
   \<Rightarrow> string option \<Rightarrow> (error + lru_trie_node \<times> write_report \<times> traph) option" where
  "create_webentity_for lru_variations t node report prefix =
     (case expand_prefix lru_variations prefix of
        Inl e \<Rightarrow> Some (Inl e)
      | Inr expanded_prefixes \<Rightarrow>
          (case traph__add_prefixes t expanded_prefixes of
             None \<Rightarrow> None
           | Some (Inl e) \<Rightarrow> Some (Inl e)
           | Some (Inr (weid, t1)) \<Rightarrow>
               Some (Inr (node,
                          report\<lparr>created_webentities :=
                                   (created_webentities report)(weid \<mapsto> expanded_prefixes)\<rparr>,
                          t1))))"

definition traph__add_page ::
  "(string option \<Rightarrow> error + string list) \<Rightarrow> traph \<Rightarrow> string
   \<Rightarrow> (error + lru_trie_node \<times> write_report \<times> traph) option" where
  "traph__add_page lru_variations t lru =
     (case add_page (lru_trie_storage t) lru of
        None \<Rightarrow> None
      | Some (Inl e) \<Rightarrow> Some (Inl e)
      | Some (Inr (node, history, st1)) \<Rightarrow>
          (let t1 = t\<lparr>lru_trie_storage := st1, added_pages := added_pages t @ [lru]\<rparr>;
               report = TraphWriteReport
           in case longest_candidate_prefix_loop t1 (rules_to_apply history) lru [] of
                Inl e \<Rightarrow> Some (Inl e)
              | Inr longest_candidate_prefix \<Rightarrow>
                  if longest_candidate_prefix \<noteq> []
                     \<and> int (length longest_candidate_prefix) \<le> webentity_position history + 1
                  then Some (Inr (node, report, t1))
                  else if longest_candidate_prefix \<noteq> []
                  then create_webentity_for lru_variations t1 node report
                         (Some longest_candidate_prefix)
                  else create_webentity_for lru_variations t1 node report
                         (traph__apply_webentity_default_creation_rule t1 lru)))"

subsection \<open>Public interface\<close>

definition traph_add_page ::
  "(string option \<Rightarrow> error + string list) \<Rightarrow> traph \<Rightarrow> string
   \<Rightarrow> (error + write_report \<times> traph) option" where
  "traph_add_page lru_variations t lru =
     (case traph__add_page lru_variations t lru of
        None \<Rightarrow> None
      | Some (Inl e) \<Rightarrow> Some (Inl e)
      | Some (Inr (node, report, t1)) \<Rightarrow> Some (Inr (report, t1)))"

text \<open>
  \<^verbatim>\<open>add_links\<close>. The multimaps \<^verbatim>\<open>inlinks\<close> and \<^verbatim>\<open>outlinks\<close> are lists of keys with
  their lists of values; Python gives no order to the keys of a dictionary, and the
  model keeps them in the order of their first insertion.
\<close>

definition multimap_append :: "'k \<Rightarrow> 'v \<Rightarrow> ('k \<times> 'v list) list \<Rightarrow> ('k \<times> 'v list) list" where
  "multimap_append k v m =
     (case map_of m k of
        None \<Rightarrow> m @ [(k, [v])]
      | Some vs \<Rightarrow> map (\<lambda>(k', vs'). if k' = k then (k', vs' @ [v]) else (k', vs')) m)"

text \<open>
  The block \<^verbatim>\<open>if not page in pages: ...\<close>, which the loop of \<^verbatim>\<open>add_links\<close> has for the
  source page and then for the target page.
\<close>

definition add_links_page ::
  "(string option \<Rightarrow> error + string list) \<Rightarrow> traph \<times> write_report \<times> (string \<rightharpoonup> lru_trie_node)
   \<Rightarrow> string \<Rightarrow> (error + traph \<times> write_report \<times> (string \<rightharpoonup> lru_trie_node)) option" where
  "add_links_page lru_variations s page =
     (case s of (t, report, pages) \<Rightarrow>
        if pages page = None then
          (case traph__add_page lru_variations t page of
             None \<Rightarrow> None
           | Some (Inl e) \<Rightarrow> Some (Inl e)
           | Some (Inr (node, page_report, t1)) \<Rightarrow>
               Some (Inr (t1, report_add report page_report, pages(page \<mapsto> node))))
        else Some (Inr (t, report, pages)))"

fun add_links_loop ::
  "(string option \<Rightarrow> error + string list) \<Rightarrow> (string \<times> string) list
   \<Rightarrow> traph \<times> write_report \<times> (string \<rightharpoonup> lru_trie_node)
   \<Rightarrow> (string \<times> string list) list \<Rightarrow> (string \<times> string list) list
   \<Rightarrow> (error + (traph \<times> write_report \<times> (string \<rightharpoonup> lru_trie_node))
               \<times> (string \<times> string list) list \<times> (string \<times> string list) list) option" where
  "add_links_loop lru_variations [] s outlinks inlinks = Some (Inr (s, outlinks, inlinks))"
| "add_links_loop lru_variations ((source_page, target_page) # links) s outlinks inlinks =
     (case add_links_page lru_variations s source_page of
        None \<Rightarrow> None
      | Some (Inl e) \<Rightarrow> Some (Inl e)
      | Some (Inr s1) \<Rightarrow>
          (case add_links_page lru_variations s1 target_page of
             None \<Rightarrow> None
           | Some (Inl e) \<Rightarrow> Some (Inl e)
           | Some (Inr s2) \<Rightarrow>
               add_links_loop lru_variations links s2
                 (multimap_append source_page target_page outlinks)
                 (multimap_append target_page source_page inlinks)))"

text \<open>
  \<^verbatim>\<open>LinkStore\<close> is missing: its methods \<^verbatim>\<open>add_outlinks\<close> and \<^verbatim>\<open>add_inlinks\<close> are
  parameters, given a node and the blocks of the other pages, on the two storages.
  The loops over \<^verbatim>\<open>outlinks.items()\<close> and \<^verbatim>\<open>inlinks.items()\<close>:
\<close>

type_synonym link_store_method =
  "lru_trie_node \<Rightarrow> nat option list \<Rightarrow> storage \<times> link_store_node list
   \<Rightarrow> error + storage \<times> link_store_node list"

fun flush_links ::
  "link_store_method \<Rightarrow> (string \<rightharpoonup> lru_trie_node) \<Rightarrow> (string \<times> string list) list
   \<Rightarrow> storage \<times> link_store_node list \<Rightarrow> error + storage \<times> link_store_node list" where
  "flush_links method pages [] s = Inr s"
| "flush_links method pages ((page, other_pages) # rest) s =
     (case pages page of
        None \<Rightarrow> Inl KeyError
      | Some node \<Rightarrow>
          (case those (map pages other_pages) of
             None \<Rightarrow> Inl KeyError
           | Some nodes \<Rightarrow>
               (case method node (map block nodes) s of
                  Inl e \<Rightarrow> Inl e
                | Inr s1 \<Rightarrow> flush_links method pages rest s1)))"

definition traph_add_links ::
  "(string option \<Rightarrow> error + string list) \<Rightarrow> link_store_method \<Rightarrow> link_store_method
   \<Rightarrow> traph \<Rightarrow> (string \<times> string) list \<Rightarrow> (error + write_report \<times> traph) option" where
  "traph_add_links lru_variations add_outlinks add_inlinks t links =
     (case add_links_loop lru_variations links (t, TraphWriteReport, Map.empty) [] [] of
        None \<Rightarrow> None
      | Some (Inl e) \<Rightarrow> Some (Inl e)
      | Some (Inr ((t1, report, pages), outlinks, inlinks)) \<Rightarrow>
          (case flush_links add_outlinks pages outlinks
                  (lru_trie_storage t1, links_store_storage t1) of
             Inl e \<Rightarrow> Some (Inl e)
           | Inr s1 \<Rightarrow>
               (case flush_links add_inlinks pages inlinks s1 of
                  Inl e \<Rightarrow> Some (Inl e)
                | Inr (st, ls) \<Rightarrow>
                    Some (Inr (report, t1\<lparr>lru_trie_storage := st,
                                          links_store_storage := ls\<rparr>)))))"

subsection \<open>Depth-first iteration and the installation of a rule\<close>

definition char_as_str :: "lru_trie_node \<Rightarrow> char" where
  "char_as_str n = char_of (node_char n)"

text \<open>
  The loop of \<^verbatim>\<open>dfs_iter\<close>; the generator is the list of what it yields, on a storage
  that does not change meanwhile.
\<close>

partial_function (option) dfs_loop ::
  "storage \<Rightarrow> lru_trie_node \<Rightarrow> bool \<Rightarrow> string \<Rightarrow> (lru_trie_node \<times> string) list
   \<Rightarrow> (error + (lru_trie_node \<times> string) list) option" where
  "dfs_loop st node descending lru yielded =
     (if descending \<and> has_child node then
        (case read_child st node of
           Inl e \<Rightarrow> Some (Inl e)
         | Inr node' \<Rightarrow>
             dfs_loop st node' True (lru @ [char_as_str node])
               (yielded @ [(node, lru @ [char_as_str node])]))
      else if has_next node then
        (case read_next st node of
           Inl e \<Rightarrow> Some (Inl e)
         | Inr node' \<Rightarrow>
             dfs_loop st node' True lru
               (if descending then yielded @ [(node, lru @ [char_as_str node])] else yielded))
      else if \<not> is_root node then
        dfs_loop st (read_parent st node) False (butlast lru)
          (if descending then yielded @ [(node, lru @ [char_as_str node])] else yielded)
      else Some (Inr (if descending then yielded @ [(node, lru @ [char_as_str node])]
                      else yielded)))"

text \<open>
  \<^verbatim>\<open>def dfs_iter(self)\<close> has no parameter but \<^verbatim>\<open>self\<close>: a call that passes positional
  arguments raises \<^verbatim>\<open>TypeError\<close> before the body runs.
\<close>

datatype argument = NodeArgument lru_trie_node | StringArgument string

definition dfs_iter ::
  "storage \<Rightarrow> argument list \<Rightarrow> (error + (lru_trie_node \<times> string) list) option" where
  "dfs_iter st arguments =
     (if arguments \<noteq> [] then Some (Inl TypeError)
      else (let node = root st
            in if \<not> exists node then Some (Inr [])
               else dfs_loop st node True [] []))"

text \<open>The loop of \<^verbatim>\<open>add_webentity_creation_rule\<close> over what the iterator yields.\<close>

fun spawn_webentities ::
  "(string option \<Rightarrow> error + string list) \<Rightarrow> (lru_trie_node \<times> string) list
   \<Rightarrow> traph \<Rightarrow> write_report \<Rightarrow> (error + write_report \<times> traph) option" where
  "spawn_webentities lru_variations [] t report = Some (Inr (report, t))"
| "spawn_webentities lru_variations ((node2, lru) # rest) t report =
     (if is_page node2 then
        (case traph__add_page lru_variations t lru of
           None \<Rightarrow> None
         | Some (Inl e) \<Rightarrow> Some (Inl e)
         | Some (Inr (node, add_report, t1)) \<Rightarrow>
             spawn_webentities lru_variations rest t1 (report_add report add_report))
      else spawn_webentities lru_variations rest t report)"

text \<open>
  \<^verbatim>\<open>add_webentity_creation_rule\<close>. The test \<^verbatim>\<open>if not node\<close> is never true, a node object
  being true. The iterator is called with the node and \<^verbatim>\<open>rule_prefix[:-1]\<close>.
\<close>

definition add_webentity_creation_rule ::
  "(string option \<Rightarrow> error + string list) \<Rightarrow> traph \<Rightarrow> string \<Rightarrow> regexp \<Rightarrow> bool
   \<Rightarrow> (error + write_report \<times> traph) option" where
  "add_webentity_creation_rule lru_variations t rule_prefix pattern write_in_trie =
     (let t1 = t\<lparr>webentity_creation_rules := (webentity_creation_rules t)(rule_prefix \<mapsto> pattern)\<rparr>;
          report = TraphWriteReport
      in if write_in_trie then
           (case add_lru (lru_trie_storage t1) rule_prefix of
              None \<Rightarrow> None
            | Some (Inl e) \<Rightarrow> Some (Inl e)
            | Some (Inr (node, history, st1)) \<Rightarrow>
                (let (node', st2) = node_write st1 (flag_as_webentity_creation_rule node)
                 in case dfs_iter st2 [NodeArgument node', StringArgument (butlast rule_prefix)] of
                      None \<Rightarrow> None
                    | Some (Inl e) \<Rightarrow> Some (Inl e)
                    | Some (Inr pairs) \<Rightarrow>
                        spawn_webentities lru_variations pairs
                          (t1\<lparr>lru_trie_storage := st2\<rparr>) report))
         else Some (Inr (report, t1)))"

text \<open>
  The candidate prefixes of the specification, section 4.6: for each rule prefix of the
  history, the match of the pattern of the rule against the full LRU, when it matches.
\<close>

definition candidate_prefixes :: "traph \<Rightarrow> string list \<Rightarrow> string \<Rightarrow> string list" where
  "candidate_prefixes t rules lru =
     concat (map (\<lambda>rule_prefix.
                    case webentity_creation_rules t rule_prefix of
                      None \<Rightarrow> []
                    | Some regexp \<Rightarrow> (case regexp lru of None \<Rightarrow> [] | Some c \<Rightarrow> [c]))
                 rules)"

text \<open>
  The constructor without a folder and with no initial rule: two empty
  \<^verbatim>\<open>MemoryStorage\<close>s, the first given to \<^verbatim>\<open>LRUTrie\<close>, which writes the header blocks.
  \<^verbatim>\<open>LinkStore\<close> is missing and the link store is left as it is.
\<close>

definition Traph :: "regexp \<Rightarrow> traph" where
  "Traph default_rule =
     \<lparr>lru_trie_storage = LRUTrie empty_storage, links_store_storage = [],
      last_webentity_id = 0, default_webentity_creation_rule = default_rule,
      webentity_creation_rules = Map.empty, added_pages = []\<rparr>"

subsection \<open>Storages before and after a call\<close>

text \<open>
  \<open>keeps\<close>: the storage grows, the blocks that were there keep their webentity flag,
  their creation rule flag and their webentity id, and the new blocks carry neither
  flag. \<open>evolves\<close>: the storage grows, the page and webentity flags that were set stay
  set, the creation rule flags of the blocks that were there are unchanged and the new
  blocks carry no creation rule.
\<close>

definition keeps :: "node_data list \<Rightarrow> node_data list \<Rightarrow> bool" where
  "keeps bs bs' =
     (grows bs bs'
      \<and> (\<forall>b \<in> set [0 ..< length bs].
            test (nflags (bs' ! b)) LRU_TRIE_NODE_FLAG_WEBENTITY
              = test (nflags (bs ! b)) LRU_TRIE_NODE_FLAG_WEBENTITY
            \<and> test (nflags (bs' ! b)) LRU_TRIE_NODE_FLAG_WEBENTITY_CREATION_RULE
              = test (nflags (bs ! b)) LRU_TRIE_NODE_FLAG_WEBENTITY_CREATION_RULE
            \<and> nwebentity (bs' ! b) = nwebentity (bs ! b))
      \<and> (\<forall>b \<in> set [length bs ..< length bs'].
            \<not> test (nflags (bs' ! b)) LRU_TRIE_NODE_FLAG_WEBENTITY
            \<and> \<not> test (nflags (bs' ! b)) LRU_TRIE_NODE_FLAG_WEBENTITY_CREATION_RULE))"

definition evolves :: "node_data list \<Rightarrow> node_data list \<Rightarrow> bool" where
  "evolves bs bs' =
     (grows bs bs'
      \<and> (\<forall>b \<in> set [0 ..< length bs].
            (test (nflags (bs ! b)) LRU_TRIE_NODE_FLAG_PAGE
               \<longrightarrow> test (nflags (bs' ! b)) LRU_TRIE_NODE_FLAG_PAGE)
            \<and> (test (nflags (bs ! b)) LRU_TRIE_NODE_FLAG_WEBENTITY
               \<longrightarrow> test (nflags (bs' ! b)) LRU_TRIE_NODE_FLAG_WEBENTITY)
            \<and> test (nflags (bs' ! b)) LRU_TRIE_NODE_FLAG_WEBENTITY_CREATION_RULE
              = test (nflags (bs ! b)) LRU_TRIE_NODE_FLAG_WEBENTITY_CREATION_RULE)
      \<and> (\<forall>b \<in> set [length bs ..< length bs'].
            \<not> test (nflags (bs' ! b)) LRU_TRIE_NODE_FLAG_WEBENTITY_CREATION_RULE))"

text \<open>
  The block of the node that \<^verbatim>\<open>add_lru\<close> returns for an LRU that is in the trie (the
  root block for the empty LRU), and the history that it collects on its way.
\<close>

definition lru_block :: "node_data list \<Rightarrow> string \<Rightarrow> nat option" where
  "lru_block bs lru =
     (if lru = [] then Some LRU_TRIE_NODE_HEADER_BLOCKS
      else resolve bs LRU_TRIE_NODE_HEADER_BLOCKS lru)"

definition history_of :: "node_data list \<Rightarrow> string \<Rightarrow> walk_history" where
  "history_of bs lru =
     (if lru \<noteq> [] \<and> LRU_TRIE_NODE_HEADER_BLOCKS < length bs
      then walk_history_from bs LRU_TRIE_NODE_HEADER_BLOCKS [] lru LRUTrieWalkHistory
      else LRUTrieWalkHistory)"

text \<open>
  Two storages with the same number of blocks and, in every block, the same char,
  flags and pointers: they differ at most in webentity ids.
\<close>

definition same_shape :: "node_data list \<Rightarrow> node_data list \<Rightarrow> bool" where
  "same_shape bs bs' =
     (length bs' = length bs
      \<and> (\<forall>b \<in> set [0 ..< length bs].
            nchar (bs' ! b) = nchar (bs ! b) \<and> nflags (bs' ! b) = nflags (bs ! b)
            \<and> nnext (bs' ! b) = nnext (bs ! b) \<and> nchild (bs' ! b) = nchild (bs ! b)
            \<and> nparent (bs' ! b) = nparent (bs ! b)))"

text \<open>The LRU is in the trie and its node is flagged as the prefix of a webentity.\<close>

definition marked :: "node_data list \<Rightarrow> string \<Rightarrow> bool" where
  "marked bs lru =
     (case lru_block bs lru of
        None \<Rightarrow> False
      | Some b \<Rightarrow> b < length bs \<and> test (nflags (bs ! b)) LRU_TRIE_NODE_FLAG_WEBENTITY)"

subsection \<open>Example inputs\<close>

text \<open>
  A pattern that matches the empty string wherever it is searched (such as \<^verbatim>\<open>x*\<close> on an
  LRU that does not start with x), a pattern that matches the whole LRU (such as
  \<^verbatim>\<open>.*\<close>), and an expansion of a prefix into itself alone.
\<close>

definition match_empty :: regexp where
  "match_empty lru = Some []"

definition match_all :: regexp where
  "match_all lru = Some lru"

definition single_variation :: "string option \<Rightarrow> error + string list" where
  "single_variation prefix = (case prefix of None \<Rightarrow> Inl TypeError | Some p \<Rightarrow> Inr [p])"

text \<open>
  A trie that holds the LRU \<^verbatim>\<open>a\<close>, whose node is the prefix of webentity 1 and carries a
  creation rule, with the pattern above that matches the empty string.
\<close>

definition example_blocks :: "node_data list" where
  "example_blocks =
     [set_default_data None,
      \<lparr>nchar = 97, nflags = 6, nnext = 0, nchild = 0, nparent = 0, nwebentity = 1\<rparr>]"

definition example_traph :: traph where
  "example_traph =
     \<lparr>lru_trie_storage = \<lparr>blocks = example_blocks, trace = []\<rparr>,
      links_store_storage = [], last_webentity_id = 1,
      default_webentity_creation_rule = match_all,
      webentity_creation_rules = [''a'' \<mapsto> match_empty], added_pages = []\<rparr>"

text \<open>
  The same trie, where the pattern of the rule matches the whole LRU.
\<close>

definition example_covered :: traph where
  "example_covered = example_traph\<lparr>webentity_creation_rules := [''a'' \<mapsto> match_all]\<rparr>"


section \<open>Properties\<close>

subsection \<open>Sibling lists\<close>

lemma header_blocks_pos: "0 < LRU_TRIE_NODE_HEADER_BLOCKS"
  by (simp add: LRU_TRIE_NODE_HEADER_BLOCKS_def)

lemma trie_inv_node: "trie_inv bs \<Longrightarrow> LRU_TRIE_NODE_HEADER_BLOCKS \<le> b \<Longrightarrow> b < length bs \<Longrightarrow> node_inv bs b"
  by (simp add: trie_inv_def)

lemma trie_inv_next:
  assumes "trie_inv bs" "LRU_TRIE_NODE_HEADER_BLOCKS \<le> b" "b < length bs" "nnext (bs ! b) \<noteq> 0"
  shows "b < nnext (bs ! b) \<and> nnext (bs ! b) < length bs \<and> nparent (bs ! (nnext (bs ! b))) = nparent (bs ! b)"
  using trie_inv_node [OF assms(1-3)] assms(4) by (simp add: node_inv_def pointer_ok_def)

lemma trie_inv_child:
  assumes "trie_inv bs" "LRU_TRIE_NODE_HEADER_BLOCKS \<le> b" "b < length bs" "nchild (bs ! b) \<noteq> 0"
  shows "b < nchild (bs ! b) \<and> nchild (bs ! b) < length bs \<and> nparent (bs ! (nchild (bs ! b))) = b"
  using trie_inv_node [OF assms(1-3)] assms(4) by (simp add: node_inv_def pointer_ok_def)

lemma chain_step:
  "trie_inv bs \<Longrightarrow> LRU_TRIE_NODE_HEADER_BLOCKS \<le> b \<Longrightarrow> b < length bs \<Longrightarrow>
   chain bs b = (if nnext (bs ! b) = 0 then [b] else b # chain bs (nnext (bs ! b)))"
  using trie_inv_next [of bs b] by (subst chain.simps) auto

lemma chain_not_Nil [simp]: "chain bs b \<noteq> []"
  by (subst chain.simps) simp

lemma hd_chain [simp]: "hd (chain bs b) = b"
  by (subst chain.simps) simp

lemma chain_self [simp]: "b \<in> set (chain bs b)"
  by (subst chain.simps) simp

lemma chain_ge: "x \<in> set (chain bs b) \<Longrightarrow> b \<le> x"
proof (induction bs b rule: chain.induct)
  case (1 bs b)
  show ?case
  proof (cases "b < nnext (bs ! b) \<and> nnext (bs ! b) < length bs")
    case True
    with "1.prems" have "x = b \<or> x \<in> set (chain bs (nnext (bs ! b)))"
      by (subst (asm) chain.simps) simp
    with True "1.IH" show ?thesis by fastforce
  next
    case False
    with "1.prems" show ?thesis by (subst (asm) chain.simps) auto
  qed
qed

lemma chain_lt: "b < length bs \<Longrightarrow> x \<in> set (chain bs b) \<Longrightarrow> x < length bs"
proof (induction bs b rule: chain.induct)
  case (1 bs b)
  show ?case
  proof (cases "b < nnext (bs ! b) \<and> nnext (bs ! b) < length bs")
    case True
    with "1.prems" have "x = b \<or> x \<in> set (chain bs (nnext (bs ! b)))"
      by (subst (asm) chain.simps) simp
    with True "1.IH" "1.prems" show ?thesis by fastforce
  next
    case False
    with "1.prems" show ?thesis by (subst (asm) chain.simps) auto
  qed
qed

lemma chain_sorted: "sorted_wrt (<) (chain bs b)"
proof (induction bs b rule: chain.induct)
  case (1 bs b)
  show ?case
  proof (cases "b < nnext (bs ! b) \<and> nnext (bs ! b) < length bs")
    case True
    then have "chain bs b = b # chain bs (nnext (bs ! b))" by (subst chain.simps) simp
    moreover have "\<forall>x \<in> set (chain bs (nnext (bs ! b))). b < x"
      using chain_ge True by fastforce
    ultimately show ?thesis using "1.IH" True by simp
  next
    case False
    then show ?thesis by (subst chain.simps) auto
  qed
qed

lemma chain_distinct: "distinct (chain bs b)"
  using chain_sorted [of bs b] strict_sorted_iff by blast


lemma chain_induct_inv [consumes 3, case_names last step]:
  assumes "trie_inv bs" "LRU_TRIE_NODE_HEADER_BLOCKS \<le> b" "b < length bs"
    and "\<And>b. LRU_TRIE_NODE_HEADER_BLOCKS \<le> b \<Longrightarrow> b < length bs \<Longrightarrow> nnext (bs ! b) = 0
           \<Longrightarrow> chain bs b = [b] \<Longrightarrow> P b"
    and "\<And>b. LRU_TRIE_NODE_HEADER_BLOCKS \<le> b \<Longrightarrow> b < length bs \<Longrightarrow> nnext (bs ! b) \<noteq> 0
           \<Longrightarrow> b < nnext (bs ! b) \<Longrightarrow> nnext (bs ! b) < length bs
           \<Longrightarrow> chain bs b = b # chain bs (nnext (bs ! b))
           \<Longrightarrow> nparent (bs ! (nnext (bs ! b))) = nparent (bs ! b)
           \<Longrightarrow> P (nnext (bs ! b)) \<Longrightarrow> P b"
  shows "P b"
  using assms(2,3)
proof (induction "length bs - b" arbitrary: b rule: less_induct)
  case less
  show ?case
  proof (cases "nnext (bs ! b) = 0")
    case True
    then show ?thesis
      using assms(4) less.prems chain_step [OF assms(1) less.prems] by simp
  next
    case False
    note nx = trie_inv_next [OF assms(1) less.prems False]
    have "P (nnext (bs ! b))"
    proof (rule less.hyps)
      show "length bs - nnext (bs ! b) < length bs - b" using nx by arith
      show "LRU_TRIE_NODE_HEADER_BLOCKS \<le> nnext (bs ! b)" using nx less.prems by arith
      show "nnext (bs ! b) < length bs" using nx by simp
    qed
    then show ?thesis
      using assms(5) [of b] less.prems False nx chain_step [OF assms(1) less.prems] by simp
  qed
qed

lemma chain_last_next:
  "trie_inv bs \<Longrightarrow> LRU_TRIE_NODE_HEADER_BLOCKS \<le> b \<Longrightarrow> b < length bs
   \<Longrightarrow> nnext (bs ! last (chain bs b)) = 0"
proof (induction rule: chain_induct_inv)
  case (last b)
  then show ?case by simp
next
  case (step b)
  have "last (chain bs b) = last (chain bs (nnext (bs ! b)))"
    by (subst step(6)) simp
  then show ?case using step(8) by simp
qed

lemma chain_parent:
  "trie_inv bs \<Longrightarrow> LRU_TRIE_NODE_HEADER_BLOCKS \<le> b \<Longrightarrow> b < length bs
   \<Longrightarrow> \<forall>x \<in> set (chain bs b). nparent (bs ! x) = nparent (bs ! b)"
proof (induction rule: chain_induct_inv)
  case (last b)
  then show ?case by simp
next
  case (step b)
  have seteq: "set (chain bs b) = insert b (set (chain bs (nnext (bs ! b))))"
    by (subst step(6)) simp
  show ?case
  proof
    fix x assume "x \<in> set (chain bs b)"
    then consider "x = b" | "x \<in> set (chain bs (nnext (bs ! b)))"
      using seteq by blast
    then show "nparent (bs ! x) = nparent (bs ! b)"
    proof cases
      case 1
      then show ?thesis by simp
    next
      case 2
      then have "nparent (bs ! x) = nparent (bs ! nnext (bs ! b))"
        using step(8) by blast
      then show ?thesis using step(7) by simp
    qed
  qed
qed

lemma chain_header_le:
  "LRU_TRIE_NODE_HEADER_BLOCKS \<le> b \<Longrightarrow> x \<in> set (chain bs b) \<Longrightarrow> LRU_TRIE_NODE_HEADER_BLOCKS \<le> x"
  using chain_ge by fastforce

lemma last_chain_in:
  "last (chain bs b) \<in> set (chain bs b)"
  by simp

lemma the_node_simps [simp]:
  "block (the_node bs b) = Some b" "exists (the_node bs b)" "data (the_node bs b) = bs ! b"
  by (simp_all add: the_node_def)

lemma node_read_the_node:
  "b < length (blocks st) \<Longrightarrow> node_read st n b = the_node (blocks st) b"
  by (simp add: node_read_def storage_read_def the_node_def)

lemma read_next_the_node:
  "nnext (bs ! b) \<noteq> 0 \<Longrightarrow> nnext (bs ! b) < length bs \<Longrightarrow> blocks st = bs \<Longrightarrow>
   read_next st (the_node bs b) = Inr (the_node bs (nnext (bs ! b)))"
  by (simp add: read_next_def next_of_def node_read_the_node)

lemma read_child_the_node:
  "nchild (bs ! b) \<noteq> 0 \<Longrightarrow> nchild (bs ! b) < length bs \<Longrightarrow> blocks st = bs \<Longrightarrow>
   read_child st (the_node bs b) = Inr (the_node bs (nchild (bs ! b)))"
  by (simp add: read_child_def child_of_def node_read_the_node)

lemma follow_siblings_spec:
  assumes "trie_inv bs" "LRU_TRIE_NODE_HEADER_BLOCKS \<le> b" "b < length bs" "blocks st = bs"
  shows "follow_siblings st (the_node bs b) c =
           Some (Inr (case find_sibling bs b c of
                        Some x \<Rightarrow> (True, the_node bs x)
                      | None \<Rightarrow> (False, the_node bs (last (chain bs b)))))"
  using assms(1-3)
proof (induction rule: chain_induct_inv)
  case (last b)
  then show ?case
    by (subst follow_siblings.simps) (simp add: find_sibling_def node_char_def has_next_def)
next
  case (step b)
  have "last (chain bs b) = last (chain bs (nnext (bs ! b)))"
    by (subst step(6)) simp
  with step show ?case
    using assms(4)
    by (subst follow_siblings.simps)
       (simp add: find_sibling_def node_char_def has_next_def read_next_the_node
          split: option.split)
qed

lemma lru_node_siblings_spec:
  assumes "trie_inv bs" "LRU_TRIE_NODE_HEADER_BLOCKS \<le> b" "b < length bs" "blocks st = bs"
  shows "lru_node_siblings st (the_node bs b) c =
           Some (Inr (map_option (the_node bs) (find_sibling bs b c)))"
  using assms(1-3)
proof (induction rule: chain_induct_inv)
  case (last b)
  then show ?case
    by (subst lru_node_siblings.simps) (simp add: find_sibling_def node_char_def has_next_def)
next
  case (step b)
  then show ?case
    using assms(4)
    by (subst lru_node_siblings.simps)
       (simp add: find_sibling_def node_char_def has_next_def read_next_the_node)
qed

lemma chain_null [simp]: "nnext (bs ! b) = 0 \<Longrightarrow> chain bs b = [b]"
  by (subst chain.simps) simp

lemma chain_same:
  assumes "trie_inv bs" "LRU_TRIE_NODE_HEADER_BLOCKS \<le> x" "x < length bs"
    and "length bs \<le> length bs'"
    and "\<forall>y. y < length bs \<longrightarrow> nnext (bs' ! y) = nnext (bs ! y)"
  shows "chain bs' x = chain bs x"
  using assms(1-3)
proof (induction rule: chain_induct_inv)
  case (last b)
  then have "nnext (bs' ! b) = 0" using assms(5) by simp
  then show ?case using last(4) by simp
next
  case (step b)
  have nx: "nnext (bs' ! b) = nnext (bs ! b)" using assms(5) step(2) by simp
  have "chain bs' b = b # chain bs' (nnext (bs ! b))"
    using step(4,5) assms(4) nx by (subst chain.simps) simp
  then show ?case using step(6,8) by simp
qed

lemma length_add_sibling [simp]: "length (add_sibling bs t c) = Suc (length bs)"
  by (simp add: add_sibling_def)

lemma length_add_child [simp]: "length (add_child bs p c) = Suc (length bs)"
  by (simp add: add_child_def)

lemma new_block_simps [simp]:
  "nchar (new_block c p) = c" "nflags (new_block c p) = 0" "nnext (new_block c p) = 0"
  "nchild (new_block c p) = 0" "nparent (new_block c p) = p" "nwebentity (new_block c p) = 0"
  by (simp_all add: new_block_def set_default_data_def)

lemma add_sibling_new [simp]:
  "t < length bs \<Longrightarrow> add_sibling bs t c ! length bs = new_block c (nparent (bs ! t))"
  by (simp add: add_sibling_def nth_list_update nth_append)

lemma add_sibling_old:
  "y < length bs \<Longrightarrow> add_sibling bs t c ! y = (if y = t then (bs ! t)\<lparr>nnext := length bs\<rparr> else bs ! y)"
  by (simp add: add_sibling_def nth_list_update nth_append)

lemma add_sibling_fields [simp]:
  assumes "y < length bs"
  shows "nchar (add_sibling bs t c ! y) = nchar (bs ! y)"
    "nflags (add_sibling bs t c ! y) = nflags (bs ! y)"
    "nchild (add_sibling bs t c ! y) = nchild (bs ! y)"
    "nparent (add_sibling bs t c ! y) = nparent (bs ! y)"
    "nwebentity (add_sibling bs t c ! y) = nwebentity (bs ! y)"
    "nnext (add_sibling bs t c ! y) = (if y = t then length bs else nnext (bs ! y))"
  using assms by (simp_all add: add_sibling_old)

lemma add_child_new [simp]:
  "p < length bs \<Longrightarrow> add_child bs p c ! length bs = new_block c p"
  by (simp add: add_child_def nth_list_update nth_append)

lemma add_child_old:
  "y < length bs \<Longrightarrow> add_child bs p c ! y = (if y = p then (bs ! p)\<lparr>nchild := length bs\<rparr> else bs ! y)"
  by (simp add: add_child_def nth_list_update nth_append)

lemma add_child_fields [simp]:
  assumes "y < length bs"
  shows "nchar (add_child bs p c ! y) = nchar (bs ! y)"
    "nflags (add_child bs p c ! y) = nflags (bs ! y)"
    "nnext (add_child bs p c ! y) = nnext (bs ! y)"
    "nparent (add_child bs p c ! y) = nparent (bs ! y)"
    "nwebentity (add_child bs p c ! y) = nwebentity (bs ! y)"
    "nchild (add_child bs p c ! y) = (if y = p then length bs else nchild (bs ! y))"
  using assms by (simp_all add: add_child_old)

lemma chain_add_sibling:
  assumes "trie_inv bs" "LRU_TRIE_NODE_HEADER_BLOCKS \<le> x" "x < length bs"
    and "t < length bs" "nnext (bs ! t) = 0"
  shows "chain (add_sibling bs t c) x =
           (if t \<in> set (chain bs x) then chain bs x @ [length bs] else chain bs x)"
  using assms(1-3)
proof (induction rule: chain_induct_inv)
  case (last b)
  have new: "chain (add_sibling bs t c) (length bs) = [length bs]"
    using assms(4) by simp
  show ?case
  proof (cases "b = t")
    case True
    have "chain (add_sibling bs t c) t = t # chain (add_sibling bs t c) (length bs)"
      using assms(4) by (subst chain.simps) simp
    then show ?thesis using True new last(4) by simp
  next
    case False
    then have "nnext (add_sibling bs t c ! b) = 0" using last by simp
    then show ?thesis using False last(4) by simp
  qed
next
  case (step b)
  have bt: "b \<noteq> t" using step(3) assms(5) by auto
  have "chain (add_sibling bs t c) b = b # chain (add_sibling bs t c) (nnext (bs ! b))"
    using step(2,4,5) bt by (subst chain.simps) simp
  moreover have "t \<in> set (chain bs b) \<longleftrightarrow> t \<in> set (chain bs (nnext (bs ! b)))"
    using bt by (subst step(6)) auto
  ultimately show ?case using step(8) step(6) by simp
qed

lemma chain_add_child:
  assumes "trie_inv bs" "LRU_TRIE_NODE_HEADER_BLOCKS \<le> x" "x < length bs"
  shows "chain (add_child bs p c) x = chain bs x"
  using assms by (intro chain_same) simp_all

lemma trie_invI:
  assumes "LRU_TRIE_NODE_HEADER_BLOCKS \<le> length bs"
    and "\<And>b. LRU_TRIE_NODE_HEADER_BLOCKS \<le> b \<Longrightarrow> b < length bs \<Longrightarrow> node_inv bs b"
    and "\<And>b b'. LRU_TRIE_NODE_HEADER_BLOCKS \<le> b \<Longrightarrow> b < length bs
           \<Longrightarrow> LRU_TRIE_NODE_HEADER_BLOCKS \<le> b' \<Longrightarrow> b' < length bs
           \<Longrightarrow> nparent (bs ! b) = nparent (bs ! b') \<Longrightarrow> nchar (bs ! b) = nchar (bs ! b')
           \<Longrightarrow> b = b'"
  shows "trie_inv bs"
  using assms unfolding trie_inv_def by auto

lemma trie_inv_length: "trie_inv bs \<Longrightarrow> LRU_TRIE_NODE_HEADER_BLOCKS \<le> length bs"
  by (simp add: trie_inv_def)

lemma trie_inv_unique:
  "trie_inv bs \<Longrightarrow> LRU_TRIE_NODE_HEADER_BLOCKS \<le> b \<Longrightarrow> b < length bs
   \<Longrightarrow> LRU_TRIE_NODE_HEADER_BLOCKS \<le> b' \<Longrightarrow> b' < length bs
   \<Longrightarrow> nparent (bs ! b) = nparent (bs ! b') \<Longrightarrow> nchar (bs ! b) = nchar (bs ! b')
   \<Longrightarrow> b = b'"
  unfolding trie_inv_def by auto

lemma trie_inv_parent:
  assumes "trie_inv bs" "LRU_TRIE_NODE_HEADER_BLOCKS \<le> b" "b < length bs" "nparent (bs ! b) \<noteq> 0"
  shows "LRU_TRIE_NODE_HEADER_BLOCKS \<le> nparent (bs ! b) \<and> nparent (bs ! b) < b
         \<and> nchild (bs ! (nparent (bs ! b))) \<noteq> 0"
  using trie_inv_node [OF assms(1-3)] assms(4) by (simp add: node_inv_def)

lemma trie_inv_member:
  assumes "trie_inv bs" "LRU_TRIE_NODE_HEADER_BLOCKS \<le> b" "b < length bs"
  shows "b \<in> set (chain bs (list_head bs (nparent (bs ! b))))"
  using trie_inv_node [OF assms(1-3)] by (simp add: node_inv_def)

lemma list_head_range:
  assumes "trie_inv bs" "LRU_TRIE_NODE_HEADER_BLOCKS \<le> b" "b < length bs"
  shows "LRU_TRIE_NODE_HEADER_BLOCKS \<le> list_head bs (nparent (bs ! b))
         \<and> list_head bs (nparent (bs ! b)) < length bs"
proof (cases "nparent (bs ! b) = 0")
  case True
  then show ?thesis using assms(2,3) by (simp add: list_head_def)
next
  case False
  note p = trie_inv_parent [OF assms False]
  have "nparent (bs ! b) < length bs" using p assms(3) by simp
  from trie_inv_child [OF assms(1) _ this] p
  show ?thesis using False by (simp add: list_head_def)
qed

lemma chain_tail_unique:
  assumes "trie_inv bs" "LRU_TRIE_NODE_HEADER_BLOCKS \<le> b" "b < length bs"
    and "t \<in> set (chain bs b)" "nnext (bs ! t) = 0"
  shows "t = last (chain bs b)"
  using assms(1-3) assms(4)
proof (induction rule: chain_induct_inv)
  case (last b)
  then show ?case by simp
next
  case (step b)
  have "t \<noteq> b" using step(3) assms(5) by auto
  moreover have "set (chain bs b) = insert b (set (chain bs (nnext (bs ! b))))"
    by (subst step(6)) simp
  ultimately have "t \<in> set (chain bs (nnext (bs ! b)))" using step(9) by simp
  then have "t = last (chain bs (nnext (bs ! b)))" using step(8) by simp
  moreover have "last (chain bs b) = last (chain bs (nnext (bs ! b)))"
    by (subst step(6)) simp
  ultimately show ?case by simp
qed

lemma find_sibling_None:
  "find_sibling bs h c = None \<Longrightarrow> x \<in> set (chain bs h) \<Longrightarrow> nchar (bs ! x) \<noteq> c"
  by (auto simp: find_sibling_def find_None_iff)

text \<open>Appending a sibling keeps the storage well-formed.\<close>

lemma trie_inv_add_sibling:
  assumes inv: "trie_inv bs"
    and h: "LRU_TRIE_NODE_HEADER_BLOCKS \<le> h" "h < length bs"
    and head: "list_head bs (nparent (bs ! h)) = h"
    and none: "find_sibling bs h c = None"
    and t: "t = last (chain bs h)"
  shows "trie_inv (add_sibling bs t c)"
proof -
  let ?bs = "add_sibling bs t c"
  let ?N = "length bs"
  have t_in: "t \<in> set (chain bs h)" using t by simp
  have t_lt: "t < ?N" using chain_lt [OF h(2) t_in] .
  have t_ge: "LRU_TRIE_NODE_HEADER_BLOCKS \<le> t" using chain_header_le [OF h(1) t_in] .
  have t_next: "nnext (bs ! t) = 0" using chain_last_next [OF inv h] t by simp
  have t_par: "nparent (bs ! t) = nparent (bs ! h)" using chain_parent [OF inv h] t_in by blast
  have chain_new: "\<And>x. LRU_TRIE_NODE_HEADER_BLOCKS \<le> x \<Longrightarrow> x < ?N \<Longrightarrow>
      set (chain bs x) \<subseteq> set (chain ?bs x)"
    using chain_add_sibling [OF inv _ _ t_lt t_next] by auto
  have chain_h: "chain ?bs h = chain bs h @ [?N]"
    using chain_add_sibling [OF inv h t_lt t_next] t_in by simp
  have head_eq: "\<And>p. p < ?N \<Longrightarrow> list_head ?bs p = list_head bs p"
    by (simp add: list_head_def)
  show ?thesis
  proof (rule trie_invI)
    show "LRU_TRIE_NODE_HEADER_BLOCKS \<le> length ?bs"
      using trie_inv_length [OF inv] by simp
  next
    fix b assume b: "LRU_TRIE_NODE_HEADER_BLOCKS \<le> b" "b < length ?bs"
    show "node_inv ?bs b"
    proof (cases "b = ?N")
      case True
      have mem: "?N \<in> set (chain ?bs (list_head ?bs (nparent (bs ! t))))"
      proof -
        have "nparent (bs ! t) < ?N"
        proof (cases "nparent (bs ! t) = 0")
          case True then show ?thesis using t_lt by (cases bs) auto
        next
          case False
          then show ?thesis using trie_inv_parent [OF inv t_ge t_lt] t_lt by simp
        qed
        then have "list_head ?bs (nparent (bs ! t)) = h"
          using head_eq head t_par by simp
        then show ?thesis using chain_h by simp
      qed
      have par: "nparent (bs ! t) \<noteq> 0 \<longrightarrow>
          LRU_TRIE_NODE_HEADER_BLOCKS \<le> nparent (bs ! t) \<and> nparent (bs ! t) < ?N
          \<and> nchild (bs ! (nparent (bs ! t))) \<noteq> 0"
        using trie_inv_parent [OF inv t_ge t_lt] t_lt by auto
      show ?thesis
        unfolding node_inv_def using True t_lt mem par by (simp add: pointer_ok_def)
    next
      case False
      then have b_lt: "b < ?N" using b(2) by simp
      note ni = trie_inv_node [OF inv b(1) b_lt]
      have p1: "pointer_ok ?bs b (nnext (?bs ! b))"
        using ni b_lt by (auto simp: node_inv_def pointer_ok_def)
      have p2: "pointer_ok ?bs b (nchild (?bs ! b))"
        using ni b_lt by (auto simp: node_inv_def pointer_ok_def)
      have p3: "nnext (?bs ! b) \<noteq> 0 \<longrightarrow> nparent (?bs ! (nnext (?bs ! b))) = nparent (?bs ! b)"
      proof (cases "b = t")
        case True
        then show ?thesis using t_lt by simp
      next
        case False
        show ?thesis
        proof
          assume "nnext (?bs ! b) \<noteq> 0"
          then have nz: "nnext (bs ! b) \<noteq> 0" using False b_lt by simp
          note nx = trie_inv_next [OF inv b(1) b_lt nz]
          then show "nparent (?bs ! (nnext (?bs ! b))) = nparent (?bs ! b)"
            using False b_lt by simp
        qed
      qed
      have p4: "nchild (?bs ! b) \<noteq> 0 \<longrightarrow> nparent (?bs ! (nchild (?bs ! b))) = b"
      proof
        assume "nchild (?bs ! b) \<noteq> 0"
        then have nz: "nchild (bs ! b) \<noteq> 0" using b_lt by simp
        note ch = trie_inv_child [OF inv b(1) b_lt nz]
        then show "nparent (?bs ! (nchild (?bs ! b))) = b" using b_lt by simp
      qed
      have p5: "nparent (?bs ! b) \<noteq> 0 \<longrightarrow>
           LRU_TRIE_NODE_HEADER_BLOCKS \<le> nparent (?bs ! b) \<and> nparent (?bs ! b) < b
           \<and> nchild (?bs ! (nparent (?bs ! b))) \<noteq> 0"
      proof
        assume "nparent (?bs ! b) \<noteq> 0"
        then have nz: "nparent (bs ! b) \<noteq> 0" using b_lt by simp
        note p = trie_inv_parent [OF inv b(1) b_lt nz]
        then have "nparent (bs ! b) < ?N" using b_lt by simp
        then show "LRU_TRIE_NODE_HEADER_BLOCKS \<le> nparent (?bs ! b) \<and> nparent (?bs ! b) < b
           \<and> nchild (?bs ! (nparent (?bs ! b))) \<noteq> 0" using p b_lt by simp
      qed
      have p6: "b \<in> set (chain ?bs (list_head ?bs (nparent (?bs ! b))))"
      proof -
        have plt: "nparent (bs ! b) < ?N"
        proof (cases "nparent (bs ! b) = 0")
          case True then show ?thesis using b_lt by (cases bs) auto
        next
          case False
          then show ?thesis using trie_inv_parent [OF inv b(1) b_lt] b_lt by simp
        qed
        note r = list_head_range [OF inv b(1) b_lt]
        have "b \<in> set (chain bs (list_head bs (nparent (bs ! b))))"
          using trie_inv_member [OF inv b(1) b_lt] .
        then have "b \<in> set (chain ?bs (list_head bs (nparent (bs ! b))))"
          using chain_new r by blast
        then show ?thesis using head_eq [OF plt] b_lt by simp
      qed
      show ?thesis unfolding node_inv_def using p1 p2 p3 p4 p5 p6 by blast
    qed
  next
    fix b b'
    assume b: "LRU_TRIE_NODE_HEADER_BLOCKS \<le> b" "b < length ?bs"
      and b': "LRU_TRIE_NODE_HEADER_BLOCKS \<le> b'" "b' < length ?bs"
      and eq: "nparent (?bs ! b) = nparent (?bs ! b')" "nchar (?bs ! b) = nchar (?bs ! b')"
    have clash: False
      if y: "LRU_TRIE_NODE_HEADER_BLOCKS \<le> y" "y < ?N"
        and e: "nparent (bs ! y) = nparent (bs ! t)" "nchar (bs ! y) = c" for y
    proof -
      have "y \<in> set (chain bs (list_head bs (nparent (bs ! y))))"
        using trie_inv_member [OF inv y] .
      then have "y \<in> set (chain bs h)" using e(1) t_par head by simp
      then show False using find_sibling_None [OF none] e(2) by blast
    qed
    show "b = b'"
    proof (cases "b = ?N")
      case True
      show ?thesis
      proof (cases "b' = ?N")
        case True
        then show ?thesis using \<open>b = ?N\<close> by simp
      next
        case False
        then have "b' < ?N" using b'(2) by simp
        then show ?thesis using clash [OF b'(1)] eq True t_lt by simp
      qed
    next
      case False
      then have b_lt: "b < ?N" using b(2) by simp
      show ?thesis
      proof (cases "b' = ?N")
        case True
        then show ?thesis using clash [OF b(1) b_lt] eq t_lt b_lt by simp
      next
        case False
        then have "b' < ?N" using b'(2) by simp
        then show ?thesis using trie_inv_unique [OF inv b(1) b_lt b'(1)] eq b_lt by simp
      qed
    qed
  qed
qed

text \<open>Adding the first child of a node keeps the storage well-formed.\<close>

lemma trie_inv_add_child:
  assumes inv: "trie_inv bs"
    and p: "LRU_TRIE_NODE_HEADER_BLOCKS \<le> p" "p < length bs"
    and nochild: "nchild (bs ! p) = 0"
  shows "trie_inv (add_child bs p c)"
proof -
  let ?bs = "add_child bs p c"
  let ?N = "length bs"
  have p_pos: "0 < p" using p(1) header_blocks_pos by simp
  have no_kid: False
    if y: "LRU_TRIE_NODE_HEADER_BLOCKS \<le> y" "y < ?N" and e: "nparent (bs ! y) = p" for y
    using trie_inv_parent [OF inv y] e p_pos nochild by simp
  show ?thesis
  proof (rule trie_invI)
    show "LRU_TRIE_NODE_HEADER_BLOCKS \<le> length ?bs"
      using trie_inv_length [OF inv] by simp
  next
    fix b assume b: "LRU_TRIE_NODE_HEADER_BLOCKS \<le> b" "b < length ?bs"
    show "node_inv ?bs b"
    proof (cases "b = ?N")
      case True
      have "list_head ?bs p = ?N" using p p_pos by (simp add: list_head_def)
      moreover have "chain ?bs ?N = [?N]" using p by simp
      ultimately have mem: "?N \<in> set (chain ?bs (list_head ?bs p))" by simp
      show ?thesis
        unfolding node_inv_def using True p mem by (auto simp: pointer_ok_def)
    next
      case False
      then have b_lt: "b < ?N" using b(2) by simp
      note ni = trie_inv_node [OF inv b(1) b_lt]
      have p1: "pointer_ok ?bs b (nnext (?bs ! b))"
        using ni b_lt by (auto simp: node_inv_def pointer_ok_def)
      have p2: "pointer_ok ?bs b (nchild (?bs ! b))"
        using ni b_lt by (auto simp: node_inv_def pointer_ok_def)
      have p3: "nnext (?bs ! b) \<noteq> 0 \<longrightarrow> nparent (?bs ! (nnext (?bs ! b))) = nparent (?bs ! b)"
      proof
        assume "nnext (?bs ! b) \<noteq> 0"
        then have nz: "nnext (bs ! b) \<noteq> 0" using b_lt by simp
        note nx = trie_inv_next [OF inv b(1) b_lt nz]
        then show "nparent (?bs ! (nnext (?bs ! b))) = nparent (?bs ! b)"
          using b_lt by simp
      qed
      have p4: "nchild (?bs ! b) \<noteq> 0 \<longrightarrow> nparent (?bs ! (nchild (?bs ! b))) = b"
      proof (cases "b = p")
        case True
        then show ?thesis using p by simp
      next
        case False
        show ?thesis
        proof
          assume "nchild (?bs ! b) \<noteq> 0"
          then have nz: "nchild (bs ! b) \<noteq> 0" using b_lt False by simp
          note ch = trie_inv_child [OF inv b(1) b_lt nz]
          then show "nparent (?bs ! (nchild (?bs ! b))) = b" using b_lt False by simp
        qed
      qed
      have p5: "nparent (?bs ! b) \<noteq> 0 \<longrightarrow>
           LRU_TRIE_NODE_HEADER_BLOCKS \<le> nparent (?bs ! b) \<and> nparent (?bs ! b) < b
           \<and> nchild (?bs ! (nparent (?bs ! b))) \<noteq> 0"
      proof
        assume "nparent (?bs ! b) \<noteq> 0"
        then have nz: "nparent (bs ! b) \<noteq> 0" using b_lt by simp
        note q = trie_inv_parent [OF inv b(1) b_lt nz]
        then have "nparent (bs ! b) < ?N" using b_lt by simp
        then show "LRU_TRIE_NODE_HEADER_BLOCKS \<le> nparent (?bs ! b) \<and> nparent (?bs ! b) < b
           \<and> nchild (?bs ! (nparent (?bs ! b))) \<noteq> 0" using q b_lt by auto
      qed
      have p6: "b \<in> set (chain ?bs (list_head ?bs (nparent (?bs ! b))))"
      proof -
        have np: "nparent (bs ! b) \<noteq> p" using no_kid [OF b(1) b_lt] by blast
        have plt: "nparent (bs ! b) < ?N"
        proof (cases "nparent (bs ! b) = 0")
          case True then show ?thesis using b_lt by (cases bs) auto
        next
          case False
          then show ?thesis using trie_inv_parent [OF inv b(1) b_lt] b_lt by simp
        qed
        have hd: "list_head ?bs (nparent (bs ! b)) = list_head bs (nparent (bs ! b))"
          using plt np by (simp add: list_head_def)
        note r = list_head_range [OF inv b(1) b_lt]
        have "chain ?bs (list_head bs (nparent (bs ! b))) = chain bs (list_head bs (nparent (bs ! b)))"
          using chain_add_child [OF inv] r by blast
        then show ?thesis using trie_inv_member [OF inv b(1) b_lt] hd b_lt by simp
      qed
      show ?thesis unfolding node_inv_def using p1 p2 p3 p4 p5 p6 by blast
    qed
  next
    fix b b'
    assume b: "LRU_TRIE_NODE_HEADER_BLOCKS \<le> b" "b < length ?bs"
      and b': "LRU_TRIE_NODE_HEADER_BLOCKS \<le> b'" "b' < length ?bs"
      and eq: "nparent (?bs ! b) = nparent (?bs ! b')" "nchar (?bs ! b) = nchar (?bs ! b')"
    show "b = b'"
    proof (cases "b = ?N")
      case True
      show ?thesis
      proof (cases "b' = ?N")
        case True
        then show ?thesis using \<open>b = ?N\<close> by simp
      next
        case False
        then have "b' < ?N" using b'(2) by simp
        then show ?thesis using no_kid [OF b'(1)] eq True p by simp
      qed
    next
      case False
      then have b_lt: "b < ?N" using b(2) by simp
      show ?thesis
      proof (cases "b' = ?N")
        case True
        then show ?thesis using no_kid [OF b(1) b_lt] eq p b_lt by simp
      next
        case False
        then have "b' < ?N" using b'(2) by simp
        then show ?thesis using trie_inv_unique [OF inv b(1) b_lt b'(1)] eq b_lt by simp
      qed
    qed
  qed
qed

text \<open>The first node block, written behind the header blocks.\<close>

lemma trie_inv_first:
  assumes "length bs = LRU_TRIE_NODE_HEADER_BLOCKS"
    and "nnext d = 0" "nchild d = 0" "nparent d = 0"
  shows "trie_inv (bs @ [d])"
proof (rule trie_invI)
  show "LRU_TRIE_NODE_HEADER_BLOCKS \<le> length (bs @ [d])" using assms(1) by simp
next
  fix b assume "LRU_TRIE_NODE_HEADER_BLOCKS \<le> b" "b < length (bs @ [d])"
  then have b: "b = length bs" using assms(1) by simp
  have "(bs @ [d]) ! b = d" using b by simp
  then show "node_inv (bs @ [d]) b"
    unfolding node_inv_def using assms b by (simp add: pointer_ok_def list_head_def)
next
  fix b b'
  assume "LRU_TRIE_NODE_HEADER_BLOCKS \<le> b" "b < length (bs @ [d])"
    "LRU_TRIE_NODE_HEADER_BLOCKS \<le> b'" "b' < length (bs @ [d])"
  then show "b = b'" using assms(1) by simp
qed

text \<open>The invariant does not read the flags nor the webentity id.\<close>

lemma trie_inv_cong:
  assumes inv: "trie_inv bs"
    and len: "length bs' = length bs"
    and same: "\<And>y. y < length bs \<Longrightarrow>
        nchar (bs' ! y) = nchar (bs ! y) \<and> nnext (bs' ! y) = nnext (bs ! y)
        \<and> nchild (bs' ! y) = nchild (bs ! y) \<and> nparent (bs' ! y) = nparent (bs ! y)"
  shows "trie_inv bs'"
proof (rule trie_invI)
  show "LRU_TRIE_NODE_HEADER_BLOCKS \<le> length bs'"
    using trie_inv_length [OF inv] len by simp
next
  fix b assume b: "LRU_TRIE_NODE_HEADER_BLOCKS \<le> b" "b < length bs'"
  then have b_lt: "b < length bs" using len by simp
  note ni = trie_inv_node [OF inv b(1) b_lt]
  note r = list_head_range [OF inv b(1) b_lt]
  have plt: "nparent (bs ! b) < length bs"
  proof (cases "nparent (bs ! b) = 0")
    case True then show ?thesis using b_lt by (cases bs) auto
  next
    case False
    then show ?thesis using trie_inv_parent [OF inv b(1) b_lt] b_lt by simp
  qed
  have hd: "list_head bs' (nparent (bs ! b)) = list_head bs (nparent (bs ! b))"
    using same [OF plt] by (simp add: list_head_def)
  have ch: "chain bs' (list_head bs (nparent (bs ! b))) = chain bs (list_head bs (nparent (bs ! b)))"
    using r len same by (intro chain_same [OF inv]) simp_all
  have nx: "nnext (bs ! b) \<noteq> 0 \<Longrightarrow> nnext (bs ! b) < length bs"
    using trie_inv_next [OF inv b(1) b_lt] by simp
  have cd: "nchild (bs ! b) \<noteq> 0 \<Longrightarrow> nchild (bs ! b) < length bs"
    using trie_inv_child [OF inv b(1) b_lt] by simp
  have p1: "pointer_ok bs' b (nnext (bs' ! b))" "pointer_ok bs' b (nchild (bs' ! b))"
    using ni same [OF b_lt] len by (simp_all add: node_inv_def pointer_ok_def)
  have p3: "nnext (bs' ! b) \<noteq> 0 \<longrightarrow> nparent (bs' ! (nnext (bs' ! b))) = nparent (bs' ! b)"
    using ni same [OF b_lt] nx same [of "nnext (bs ! b)"] by (auto simp: node_inv_def)
  have p4: "nchild (bs' ! b) \<noteq> 0 \<longrightarrow> nparent (bs' ! (nchild (bs' ! b))) = b"
    using ni same [OF b_lt] cd same [of "nchild (bs ! b)"] by (auto simp: node_inv_def)
  have p5: "nparent (bs' ! b) \<noteq> 0 \<longrightarrow>
           LRU_TRIE_NODE_HEADER_BLOCKS \<le> nparent (bs' ! b) \<and> nparent (bs' ! b) < b
           \<and> nchild (bs' ! (nparent (bs' ! b))) \<noteq> 0"
    using ni same [OF b_lt] same [OF plt] by (auto simp: node_inv_def)
  have p6: "b \<in> set (chain bs' (list_head bs' (nparent (bs' ! b))))"
    using trie_inv_member [OF inv b(1) b_lt] hd ch same [OF b_lt] by simp
  show "node_inv bs' b" unfolding node_inv_def using p1 p3 p4 p5 p6 by blast
next
  fix b b'
  assume b: "LRU_TRIE_NODE_HEADER_BLOCKS \<le> b" "b < length bs'"
    and b': "LRU_TRIE_NODE_HEADER_BLOCKS \<le> b'" "b' < length bs'"
    and eq: "nparent (bs' ! b) = nparent (bs' ! b')" "nchar (bs' ! b) = nchar (bs' ! b')"
  have "b < length bs" "b' < length bs" using b b' len by simp_all
  then show "b = b'"
    using trie_inv_unique [OF inv b(1) _ b'(1), of ] eq same [of b] same [of b'] by simp
qed

lemma node_write_new:
  "block n = None \<Longrightarrow>
   node_write st n =
     (n\<lparr>block := Some (length (blocks st)), exists := True\<rparr>,
      st\<lparr>blocks := blocks st @ [data n], trace := trace st @ [blocks st @ [data n]]\<rparr>)"
  by (simp add: node_write_def storage_write_def Let_def)

lemma node_write_old:
  "block n = Some b \<Longrightarrow>
   node_write st n =
     (n\<lparr>block := Some b, exists := True\<rparr>,
      st\<lparr>blocks := (blocks st)[b := data n],
         trace := trace st @ [(blocks st)[b := data n]]\<rparr>)"
  by (simp add: node_write_def storage_write_def Let_def)

lemma ensure_char_found:
  assumes "trie_inv bs" "LRU_TRIE_NODE_HEADER_BLOCKS \<le> b" "b < length bs" "blocks st = bs"
    and "find_sibling bs b c = Some x"
  shows "ensure_char_from_siblings st (the_node bs b) c = Some (Inr (the_node bs x, st))"
  using assms(5)
  by (simp add: ensure_char_from_siblings_def follow_siblings_spec [OF assms(1-4)])

lemma ensure_char_new:
  assumes "trie_inv bs" "LRU_TRIE_NODE_HEADER_BLOCKS \<le> b" "b < length bs" "blocks st = bs"
    and "find_sibling bs b c = None" and t: "t = last (chain bs b)"
  shows "ensure_char_from_siblings st (the_node bs b) c =
           Some (Inr (the_node (add_sibling bs t c) (length bs),
                      st\<lparr>blocks := add_sibling bs t c,
                         trace := trace st @ [bs @ [new_block c (nparent (bs ! t))],
                                              add_sibling bs t c]\<rparr>))"
proof -
  have t_lt: "t < length bs" using chain_lt [OF assms(3)] t by simp
  have sib: "set_parent (new_node (Some c)) (parent_of (the_node bs t))
               = \<lparr>block = None, exists = False, data = new_block c (nparent (bs ! t))\<rparr>"
    by (simp add: set_parent_def new_node_def parent_of_def new_block_def)
  have new: "the_node (add_sibling bs t c) (length bs)
               = \<lparr>block = Some (length bs), exists = True, data = new_block c (nparent (bs ! t))\<rparr>"
    using t_lt by (simp add: the_node_def)
  show ?thesis
    using assms(5) t [symmetric] assms(4)
    by (simp add: ensure_char_from_siblings_def follow_siblings_spec [OF assms(1-4)] sib new
        node_write_new node_write_old set_next_def add_sibling_def [symmetric])
qed

lemma root_the_node:
  "LRU_TRIE_NODE_HEADER_BLOCKS < length (blocks st) \<Longrightarrow>
   root st = the_node (blocks st) LRU_TRIE_NODE_HEADER_BLOCKS"
  by (simp add: root_def node_at_def node_read_the_node)

lemma root_absent:
  "length (blocks st) \<le> LRU_TRIE_NODE_HEADER_BLOCKS \<Longrightarrow> root st = new_node None"
  by (simp add: root_def node_at_def node_read_def storage_read_def new_node_def)

lemma ensure_char_absent:
  "ensure_char_from_siblings st (new_node None) c =
     Some (Inr (\<lparr>block = Some (length (blocks st)), exists = True, data = new_block c 0\<rparr>,
                st\<lparr>blocks := blocks st @ [new_block c 0],
                   trace := trace st @ [blocks st @ [new_block c 0]]\<rparr>))"
  by (simp add: ensure_char_from_siblings_def new_node_def set_char_def node_write_new
      new_block_def set_default_data_def)

lemma grows_refl [simp]: "grows bs bs"
  by (simp add: grows_def)

lemma grows_length: "grows bs bs' \<Longrightarrow> length bs \<le> length bs'"
  by (simp add: grows_def)

lemma grows_nchar: "grows bs bs' \<Longrightarrow> b < length bs \<Longrightarrow> nchar (bs' ! b) = nchar (bs ! b)"
  by (simp add: grows_def)

lemma grows_nparent: "grows bs bs' \<Longrightarrow> b < length bs \<Longrightarrow> nparent (bs' ! b) = nparent (bs ! b)"
  by (simp add: grows_def)

lemma grows_nchild:
  "grows bs bs' \<Longrightarrow> b < length bs \<Longrightarrow> nchild (bs ! b) \<noteq> 0 \<Longrightarrow> nchild (bs' ! b) = nchild (bs ! b)"
  by (simp add: grows_def)

lemma grows_nnext:
  "grows bs bs' \<Longrightarrow> b < length bs \<Longrightarrow> nnext (bs ! b) \<noteq> 0 \<Longrightarrow> nnext (bs' ! b) = nnext (bs ! b)"
  by (simp add: grows_def)

lemma grows_nnext_new:
  "grows bs bs' \<Longrightarrow> b < length bs \<Longrightarrow> nnext (bs ! b) = 0
   \<Longrightarrow> nnext (bs' ! b) = 0 \<or> length bs \<le> nnext (bs' ! b)"
  by (simp add: grows_def)

lemma grows_nchild_new:
  "grows bs bs' \<Longrightarrow> b < length bs \<Longrightarrow> nchild (bs ! b) = 0
   \<Longrightarrow> nchild (bs' ! b) = 0 \<or> length bs \<le> nchild (bs' ! b)"
  by (simp add: grows_def)

lemma growsI:
  assumes "length bs \<le> length bs'"
    and "\<And>b. b < length bs \<Longrightarrow> nchar (bs' ! b) = nchar (bs ! b) \<and> nparent (bs' ! b) = nparent (bs ! b)"
    and "\<And>b. b < length bs \<Longrightarrow> nnext (bs ! b) \<noteq> 0 \<Longrightarrow> nnext (bs' ! b) = nnext (bs ! b)"
    and "\<And>b. b < length bs \<Longrightarrow> nnext (bs ! b) = 0 \<Longrightarrow> nnext (bs' ! b) = 0 \<or> length bs \<le> nnext (bs' ! b)"
    and "\<And>b. b < length bs \<Longrightarrow> nchild (bs ! b) \<noteq> 0 \<Longrightarrow> nchild (bs' ! b) = nchild (bs ! b)"
    and "\<And>b. b < length bs \<Longrightarrow> nchild (bs ! b) = 0 \<Longrightarrow> nchild (bs' ! b) = 0 \<or> length bs \<le> nchild (bs' ! b)"
  shows "grows bs bs'"
  unfolding grows_def using assms by simp

lemma grows_trans:
  assumes a: "grows bs bs1" and b: "grows bs1 bs2"
  shows "grows bs bs2"
proof (rule growsI)
  note l = grows_length [OF a] grows_length [OF b]
  show "length bs \<le> length bs2" using l by simp
  fix y assume y: "y < length bs"
  then have y1: "y < length bs1" using l by simp
  show "nchar (bs2 ! y) = nchar (bs ! y) \<and> nparent (bs2 ! y) = nparent (bs ! y)"
    using grows_nchar [OF a y] grows_nchar [OF b y1] grows_nparent [OF a y] grows_nparent [OF b y1]
    by simp
  show "nnext (bs2 ! y) = nnext (bs ! y)" if "nnext (bs ! y) \<noteq> 0"
    using grows_nnext [OF a y that] grows_nnext [OF b y1] that by simp
  show "nchild (bs2 ! y) = nchild (bs ! y)" if "nchild (bs ! y) \<noteq> 0"
    using grows_nchild [OF a y that] grows_nchild [OF b y1] that by simp
  show "nnext (bs2 ! y) = 0 \<or> length bs \<le> nnext (bs2 ! y)" if z: "nnext (bs ! y) = 0"
  proof (cases "nnext (bs1 ! y) = 0")
    case True
    then show ?thesis using grows_nnext_new [OF b y1] l by auto
  next
    case False
    then show ?thesis using grows_nnext [OF b y1 False] grows_nnext_new [OF a y z] by auto
  qed
  show "nchild (bs2 ! y) = 0 \<or> length bs \<le> nchild (bs2 ! y)" if z: "nchild (bs ! y) = 0"
  proof (cases "nchild (bs1 ! y) = 0")
    case True
    then show ?thesis using grows_nchild_new [OF b y1] l by auto
  next
    case False
    then show ?thesis using grows_nchild [OF b y1 False] grows_nchild_new [OF a y z] by auto
  qed
qed

lemma extends_refl [simp]: "extends bs bs"
  by (simp add: extends_def)

lemma extends_grows: "extends bs bs' \<Longrightarrow> grows bs bs'"
  by (simp add: extends_def)

lemma extends_trans:
  assumes "extends bs bs1" "extends bs1 bs2"
  shows "extends bs bs2"
proof -
  have l: "length bs \<le> length bs1" "length bs1 \<le> length bs2"
    using assms by (simp_all add: extends_def grows_def)
  have g: "grows bs bs2" using assms grows_trans extends_grows by blast
  have old: "\<And>b. b < length bs \<Longrightarrow>
      nflags (bs2 ! b) = nflags (bs ! b) \<and> nwebentity (bs2 ! b) = nwebentity (bs ! b)"
  proof -
    fix b assume b: "b < length bs"
    then have "b < length bs1" using l by simp
    then have "nflags (bs2 ! b) = nflags (bs1 ! b) \<and> nwebentity (bs2 ! b) = nwebentity (bs1 ! b)"
      using assms(2) by (simp add: extends_def)
    moreover have "nflags (bs1 ! b) = nflags (bs ! b) \<and> nwebentity (bs1 ! b) = nwebentity (bs ! b)"
      using assms(1) b by (simp add: extends_def)
    ultimately show "nflags (bs2 ! b) = nflags (bs ! b) \<and> nwebentity (bs2 ! b) = nwebentity (bs ! b)"
      by simp
  qed
  have new: "\<And>b. length bs \<le> b \<Longrightarrow> b < length bs2 \<Longrightarrow> nflags (bs2 ! b) = 0"
  proof -
    fix b assume b: "length bs \<le> b" "b < length bs2"
    show "nflags (bs2 ! b) = 0"
    proof (cases "b < length bs1")
      case True
      then have "nflags (bs2 ! b) = nflags (bs1 ! b)" using assms(2) by (simp add: extends_def)
      moreover have "nflags (bs1 ! b) = 0" using assms(1) b(1) True by (simp add: extends_def)
      ultimately show ?thesis by simp
    next
      case False
      then show ?thesis using assms(2) b(2) by (simp add: extends_def)
    qed
  qed
  show ?thesis unfolding extends_def using g old new by simp
qed

lemma extends_add_sibling:
  "t < length bs \<Longrightarrow> nnext (bs ! t) = 0 \<Longrightarrow> extends bs (add_sibling bs t c)"
  by (auto simp: extends_def grows_def less_Suc_eq)

lemma extends_add_child:
  "p < length bs \<Longrightarrow> nchild (bs ! p) = 0 \<Longrightarrow> extends bs (add_child bs p c)"
  by (auto simp: extends_def grows_def less_Suc_eq)

lemma extends_first: "nflags d = 0 \<Longrightarrow> extends bs (bs @ [d])"
  by (auto simp: extends_def grows_def nth_append less_Suc_eq)

lemma find_sibling_step:
  assumes "trie_inv bs" "LRU_TRIE_NODE_HEADER_BLOCKS \<le> b" "b < length bs"
  shows "find_sibling bs b c =
           (if nchar (bs ! b) = c then Some b
            else if nnext (bs ! b) = 0 then None
            else find_sibling bs (nnext (bs ! b)) c)"
  unfolding find_sibling_def by (subst chain_step [OF assms]) simp

lemma find_sibling_grows:
  assumes "trie_inv bs" "LRU_TRIE_NODE_HEADER_BLOCKS \<le> b" "b < length bs"
    and "trie_inv bs'" "grows bs bs'" "find_sibling bs b c = Some x"
  shows "find_sibling bs' b c = Some x"
  using assms(1-3) assms(6)
proof (induction rule: chain_induct_inv)
  case (last b)
  have b': "b < length bs'" using last(2) grows_length [OF assms(5)] by simp
  have "nchar (bs ! b) = c" "x = b"
    using last(5) find_sibling_step [OF assms(1) last(1,2), of c] last(3)
    by (auto split: if_splits)
  moreover have "nchar (bs' ! b) = nchar (bs ! b)" using grows_nchar [OF assms(5) last(2)] .
  ultimately show ?case using find_sibling_step [OF assms(4) last(1) b', of c] by simp
next
  case (step b)
  have b': "b < length bs'" using step(2) grows_length [OF assms(5)] by simp
  have ch: "nchar (bs' ! b) = nchar (bs ! b)" using grows_nchar [OF assms(5) step(2)] .
  have nx: "nnext (bs' ! b) = nnext (bs ! b)" using grows_nnext [OF assms(5) step(2,3)] .
  show ?case
  proof (cases "nchar (bs ! b) = c")
    case True
    then have "x = b" using step(9) find_sibling_step [OF assms(1) step(1,2), of c] by simp
    then show ?thesis using True ch find_sibling_step [OF assms(4) step(1) b', of c] by simp
  next
    case False
    then have "find_sibling bs (nnext (bs ! b)) c = Some x"
      using step(9) find_sibling_step [OF assms(1) step(1,2), of c] step(3) by simp
    then have "find_sibling bs' (nnext (bs ! b)) c = Some x" using step(8) by simp
    then show ?thesis
      using False ch nx step(3) find_sibling_step [OF assms(4) step(1) b', of c] by simp
  qed
qed

lemma find_sibling_range:
  assumes "LRU_TRIE_NODE_HEADER_BLOCKS \<le> b" "b < length bs" "find_sibling bs b c = Some x"
  shows "LRU_TRIE_NODE_HEADER_BLOCKS \<le> x \<and> x < length bs \<and> nchar (bs ! x) = c
         \<and> x \<in> set (chain bs b)"
proof -
  have "x \<in> set (chain bs b) \<and> nchar (bs ! x) = c"
    using assms(3) unfolding find_sibling_def by (auto simp: find_Some_iff)
  then show ?thesis using chain_lt [OF assms(2)] chain_header_le [OF assms(1)] by blast
qed

lemma resolve_grows:
  "trie_inv bs \<Longrightarrow> LRU_TRIE_NODE_HEADER_BLOCKS \<le> h \<Longrightarrow> h < length bs
   \<Longrightarrow> trie_inv bs' \<Longrightarrow> grows bs bs'
   \<Longrightarrow> resolve bs h S = Some b \<Longrightarrow> resolve bs' h S = Some b"
proof (induction bs h S rule: resolve.induct)
  case (1 bs h)
  then show ?case by simp
next
  case (2 bs h x)
  then show ?case using find_sibling_grows [OF 2(1,2,3,4,5)] by simp
next
  case (3 bs h x y ys)
  from 3(7) obtain z where z: "find_sibling bs h (of_char x) = Some z"
    "nchild (bs ! z) \<noteq> 0" "resolve bs (nchild (bs ! z)) (y # ys) = Some b"
    by (auto split: option.splits if_splits)
  note r = find_sibling_range [OF 3(3,4) z(1)]
  have rz: "LRU_TRIE_NODE_HEADER_BLOCKS \<le> z" "z < length bs" using r by simp_all
  note c = trie_inv_child [OF 3(2) rz z(2)]
  have "LRU_TRIE_NODE_HEADER_BLOCKS \<le> nchild (bs ! z)" using c rz by simp
  then have "resolve bs' (nchild (bs ! z)) (y # ys) = Some b"
    using 3(1) [OF z(1) z(2) 3(2)] c 3(5,6) z(3) by simp
  moreover have "find_sibling bs' h (of_char x) = Some z"
    using find_sibling_grows [OF 3(2,3,4,5,6)] z(1) by simp
  moreover have "nchild (bs' ! z) = nchild (bs ! z)"
    using grows_nchild [OF 3(6) rz(2) z(2)] .
  ultimately show ?case using z(2) by simp
qed

lemma ordered_writes_iff:
  "ordered_writes st st' \<longleftrightarrow>
     (\<exists>w. trace st' = trace st @ w \<and> (\<forall>s \<in> set w. no_dangling s))"
proof
  assume a: "ordered_writes st st'"
  then have "trace st' = trace st @ writes_since st st'"
    unfolding ordered_writes_def writes_since_def
    by (metis append_take_drop_id)
  then show "\<exists>w. trace st' = trace st @ w \<and> (\<forall>s \<in> set w. no_dangling s)"
    using a unfolding ordered_writes_def by blast
next
  assume "\<exists>w. trace st' = trace st @ w \<and> (\<forall>s \<in> set w. no_dangling s)"
  then show "ordered_writes st st'"
    unfolding ordered_writes_def writes_since_def by auto
qed

lemma ordered_writes_refl [simp]: "ordered_writes st st"
  by (simp add: ordered_writes_iff)

lemma ordered_writes_trans:
  "ordered_writes st st1 \<Longrightarrow> ordered_writes st1 st2 \<Longrightarrow> ordered_writes st st2"
  unfolding ordered_writes_iff by auto

lemma ordered_writes_step:
  "(\<forall>s \<in> set w. no_dangling s) \<Longrightarrow> ordered_writes st (st\<lparr>blocks := bs', trace := trace st @ w\<rparr>)"
  by (simp add: ordered_writes_iff)

lemma no_dangling_append:
  "no_dangling bs \<Longrightarrow> nnext d = 0 \<Longrightarrow> nchild d = 0 \<Longrightarrow> nparent d \<le> length bs
   \<Longrightarrow> no_dangling (bs @ [d])"
  unfolding no_dangling_def by (auto simp: nth_append less_Suc_eq)

lemma no_dangling_add_sibling:
  "no_dangling bs \<Longrightarrow> t < length bs \<Longrightarrow> no_dangling (add_sibling bs t c)"
  unfolding no_dangling_def by (auto simp: less_Suc_eq)

lemma no_dangling_add_child:
  "no_dangling bs \<Longrightarrow> p < length bs \<Longrightarrow> no_dangling (add_child bs p c)"
  unfolding no_dangling_def by (auto simp: less_Suc_eq)

lemma no_dangling_flags:
  "no_dangling bs \<Longrightarrow> b < length bs \<Longrightarrow>
   nnext d = nnext (bs ! b) \<Longrightarrow> nchild d = nchild (bs ! b) \<Longrightarrow> nparent d = nparent (bs ! b)
   \<Longrightarrow> no_dangling (bs[b := d])"
  unfolding no_dangling_def by (auto simp: nth_list_update)

lemma resolve_Cons:
  assumes "trie_inv bs" "LRU_TRIE_NODE_HEADER_BLOCKS \<le> h" "h < length bs"
    and "find_sibling bs h (of_char x) = Some z"
  shows "resolve bs h (x # xs) =
           (if xs = [] then Some z
            else if nchild (bs ! z) = 0 then None
            else resolve bs (nchild (bs ! z)) xs)"
  using assms(4) by (cases xs) simp_all

lemma find_sibling_self:
  assumes "trie_inv bs" "LRU_TRIE_NODE_HEADER_BLOCKS \<le> h" "h < length bs" "nchar (bs ! h) = c"
  shows "find_sibling bs h c = Some h"
  using find_sibling_step [OF assms(1-3), of c] assms(4) by simp

lemma test_zero [simp]: "test 0 pos = False"
  by (simp add: test_def)

lemma track_fresh:
  "nflags (data n) = 0 \<Longrightarrow> track n pre x h = h"
  by (simp add: track_def has_webentity_def has_webentity_creation_rule_def)

lemma track_page_was_created:
  "page_was_created (track n pre x h) = page_was_created h"
  by (simp add: track_def update_webentity_def update_webentity_creation_rule_def)

lemma add_lru_extend_spec:
  "trie_inv bs \<Longrightarrow> LRU_TRIE_NODE_HEADER_BLOCKS \<le> p \<Longrightarrow> p < length bs \<Longrightarrow> blocks st = bs
   \<Longrightarrow> (rest \<noteq> [] \<longrightarrow> nchild (bs ! p) = 0)
   \<Longrightarrow> \<exists>b st'. add_lru_extend st rest (the_node bs p) = Inr (the_node (blocks st') b, st')
         \<and> trie_inv (blocks st') \<and> extends bs (blocks st')
         \<and> LRU_TRIE_NODE_HEADER_BLOCKS \<le> b \<and> b < length (blocks st')
         \<and> (rest = [] \<longrightarrow> b = p \<and> st' = st)
         \<and> (rest \<noteq> [] \<longrightarrow> nchild (blocks st' ! p) \<noteq> 0
               \<and> resolve (blocks st') (nchild (blocks st' ! p)) rest = Some b)
         \<and> (no_dangling bs \<longrightarrow> no_dangling (blocks st') \<and> ordered_writes st st')"
proof (induction rest arbitrary: bs p st)
  case Nil
  then show ?case by simp
next
  case (Cons x xs)
  let ?c = "of_char x :: nat"
  let ?N = "length bs"
  let ?bs1 = "bs @ [new_block ?c p]"
  let ?bs2 = "add_child bs p ?c"
  let ?st2 = "st\<lparr>blocks := ?bs2, trace := trace st @ [?bs1, ?bs2]\<rparr>"
  have nochild: "nchild (bs ! p) = 0" using Cons.prems(5) by simp
  have inv2: "trie_inv ?bs2" using trie_inv_add_child [OF Cons.prems(1-3) nochild] .
  have N: "LRU_TRIE_NODE_HEADER_BLOCKS \<le> ?N" "?N < length ?bs2"
    using Cons.prems(2,3) by simp_all
  have child: "the_node ?bs2 ?N = \<lparr>block = Some ?N, exists = True, data = new_block ?c p\<rparr>"
    using Cons.prems(3) by (simp add: the_node_def)
  have step: "add_lru_extend st (x # xs) (the_node bs p)
                = add_lru_extend ?st2 xs (the_node ?bs2 ?N)"
    using Cons.prems(4)
    by (simp add: node_write_new node_write_old set_parent_def new_node_def set_child_def
        new_block_def [symmetric] add_child_def [symmetric] child)
  have kid0: "xs \<noteq> [] \<longrightarrow> nchild (?bs2 ! ?N) = 0" using Cons.prems(3) by simp
  from Cons.IH [OF inv2 N _ kid0, of ?st2]
  obtain b st' where r:
    "add_lru_extend ?st2 xs (the_node ?bs2 ?N) = Inr (the_node (blocks st') b, st')"
    "trie_inv (blocks st')" "extends ?bs2 (blocks st')"
    "LRU_TRIE_NODE_HEADER_BLOCKS \<le> b" "b < length (blocks st')"
    "xs = [] \<longrightarrow> b = ?N \<and> st' = ?st2"
    "xs \<noteq> [] \<longrightarrow> nchild (blocks st' ! ?N) \<noteq> 0
        \<and> resolve (blocks st') (nchild (blocks st' ! ?N)) xs = Some b"
    "no_dangling ?bs2 \<longrightarrow> no_dangling (blocks st') \<and> ordered_writes ?st2 st'"
    by auto
  have ext: "extends bs (blocks st')"
    using extends_trans [OF extends_add_child [OF Cons.prems(3) nochild] r(3)] .
  have g2: "grows ?bs2 (blocks st')" using extends_grows [OF r(3)] .
  have N': "?N < length (blocks st')" using grows_length [OF g2] by simp
  have p': "p < length ?bs2" using Cons.prems(3) by simp
  have N_pos: "?N \<noteq> 0" using Cons.prems(3) by auto
  have kid: "nchild (blocks st' ! p) = ?N"
    using grows_nchild [OF g2 p'] Cons.prems(3) N_pos by simp
  have chr: "nchar (blocks st' ! ?N) = ?c"
    using grows_nchar [OF g2 N(2)] Cons.prems(3) by simp
  have fs: "find_sibling (blocks st') ?N ?c = Some ?N"
    using find_sibling_self [OF r(2) N(1) N' chr] .
  have res: "resolve (blocks st') ?N (x # xs) = Some b"
    using resolve_Cons [OF r(2) N(1) N' fs, of xs] r(6,7) by auto
  have tr: "no_dangling bs \<longrightarrow> no_dangling (blocks st') \<and> ordered_writes st st'"
  proof
    assume nd: "no_dangling bs"
    have nd1: "no_dangling ?bs1"
      using no_dangling_append [OF nd] Cons.prems(3) by simp
    have nd2: "no_dangling ?bs2" using no_dangling_add_child [OF nd Cons.prems(3)] .
    have "ordered_writes st ?st2"
      using ordered_writes_step [of "[?bs1, ?bs2]" st ?bs2] nd1 nd2 by simp
    then show "no_dangling (blocks st') \<and> ordered_writes st st'"
      using r(8) nd2 ordered_writes_trans by blast
  qed
  show ?case
    using step r(1,2,4,5) ext kid N_pos res tr by auto
qed

lemma find_append_None:
  "find P xs = None \<Longrightarrow> find P (xs @ ys) = find P ys"
  by (induction xs) (auto split: if_splits)

lemma find_sibling_add_sibling:
  assumes inv: "trie_inv bs" and h: "LRU_TRIE_NODE_HEADER_BLOCKS \<le> h" "h < length bs"
    and none: "find_sibling bs h c = None" and t: "t = last (chain bs h)"
  shows "find_sibling (add_sibling bs t c) h c = Some (length bs)"
proof -
  have t_in: "t \<in> set (chain bs h)" using t by simp
  have t_lt: "t < length bs" using chain_lt [OF h(2) t_in] .
  have t_next: "nnext (bs ! t) = 0" using chain_last_next [OF inv h] t by simp
  have ch: "chain (add_sibling bs t c) h = chain bs h @ [length bs]"
    using chain_add_sibling [OF inv h t_lt t_next] t_in by simp
  have old: "\<forall>x \<in> set (chain bs h). nchar (add_sibling bs t c ! x) \<noteq> c"
    using find_sibling_None [OF none] chain_lt [OF h(2)] by simp
  have "find (\<lambda>x. nchar (add_sibling bs t c ! x) = c) (chain bs h) = None"
    using old by (simp add: find_None_iff)
  then show ?thesis
    unfolding find_sibling_def ch using t_lt by (simp add: find_append_None)
qed

lemma add_lru_descend_spec:
  "trie_inv bs \<Longrightarrow> LRU_TRIE_NODE_HEADER_BLOCKS \<le> h \<Longrightarrow> h < length bs
   \<Longrightarrow> list_head bs (nparent (bs ! h)) = h \<Longrightarrow> blocks st = bs \<Longrightarrow> S \<noteq> []
   \<Longrightarrow> \<exists>b hist' rest st'.
         add_lru_descend st pre S (the_node bs h) hist
           = Some (Inr (the_node (blocks st') b, hist', rest, st'))
         \<and> trie_inv (blocks st') \<and> extends bs (blocks st')
         \<and> LRU_TRIE_NODE_HEADER_BLOCKS \<le> b \<and> b < length (blocks st')
         \<and> (\<exists>taken. S = taken @ rest \<and> taken \<noteq> [] \<and> resolve (blocks st') h taken = Some b)
         \<and> (rest \<noteq> [] \<longrightarrow> nchild (blocks st' ! b) = 0)
         \<and> (\<forall>b0. resolve bs h S = Some b0 \<longrightarrow> st' = st \<and> rest = [] \<and> b = b0)
         \<and> hist' = walk_history_from bs h pre S hist
         \<and> (no_dangling bs \<longrightarrow> no_dangling (blocks st') \<and> ordered_writes st st')"
proof (induction S arbitrary: h pre hist)
  case Nil
  then show ?case by simp
next
  case (Cons x xs)
  let ?c = "of_char x :: nat"
  note inv = Cons.prems(1) and h = Cons.prems(2,3) and head = Cons.prems(4) and st = Cons.prems(5)
  show ?case
  proof (cases "find_sibling bs h ?c")
    case None
    let ?t = "last (chain bs h)"
    let ?N = "length bs"
    let ?bs1 = "bs @ [new_block ?c (nparent (bs ! ?t))]"
    let ?bs2 = "add_sibling bs ?t ?c"
    let ?st2 = "st\<lparr>blocks := ?bs2, trace := trace st @ [?bs1, ?bs2]\<rparr>"
    have t_lt: "?t < ?N" using chain_lt [OF h(2)] by simp
    have t_next: "nnext (bs ! ?t) = 0" using chain_last_next [OF inv h] .
    have ens: "ensure_char_from_siblings st (the_node bs h) ?c
                 = Some (Inr (the_node ?bs2 ?N, ?st2))"
      using ensure_char_new [OF inv h st None refl] .
    have fresh: "nflags (data (the_node ?bs2 ?N)) = 0" "\<not> has_child (the_node ?bs2 ?N)"
      using t_lt by (simp_all add: has_child_def)
    have code: "add_lru_descend st pre (x # xs) (the_node bs h) hist
                  = Some (Inr (the_node ?bs2 ?N, hist, xs, ?st2))"
      using ens fresh by (simp add: track_fresh)
    have inv2: "trie_inv ?bs2" using trie_inv_add_sibling [OF inv h head None refl] .
    have ext: "extends bs ?bs2" using extends_add_sibling [OF t_lt t_next] .
    have res: "resolve ?bs2 h [x] = Some ?N"
      using find_sibling_add_sibling [OF inv h None refl] by simp
    have noop: "\<forall>b0. resolve bs h (x # xs) \<noteq> Some b0"
      using None by (cases xs) simp_all
    have tr: "no_dangling bs \<longrightarrow> no_dangling ?bs2 \<and> ordered_writes st ?st2"
    proof
      assume nd: "no_dangling bs"
      have "nparent (bs ! ?t) < ?N" using nd t_lt by (simp add: no_dangling_def)
      then have nd1: "no_dangling ?bs1" using no_dangling_append [OF nd] by simp
      have nd2: "no_dangling ?bs2" using no_dangling_add_sibling [OF nd t_lt] .
      show "no_dangling ?bs2 \<and> ordered_writes st ?st2"
        using ordered_writes_step [of "[?bs1, ?bs2]" st ?bs2] nd1 nd2 by simp
    qed
    have hdr: "LRU_TRIE_NODE_HEADER_BLOCKS \<le> ?N" using h by simp
    have taken: "\<exists>taken. x # xs = taken @ xs \<and> taken \<noteq> [] \<and> resolve ?bs2 h taken = Some ?N"
      using res by (intro exI [of _ "[x]"]) simp
    show ?thesis
      apply (rule exI [of _ ?N], rule exI [of _ hist], rule exI [of _ xs], rule exI [of _ ?st2])
      using code inv2 ext hdr taken noop tr t_lt None by simp
  next
    case (Some z)
    note r = find_sibling_range [OF h Some]
    have z: "LRU_TRIE_NODE_HEADER_BLOCKS \<le> z" "z < length bs" using r by simp_all
    have ens: "ensure_char_from_siblings st (the_node bs h) ?c = Some (Inr (the_node bs z, st))"
      using ensure_char_found [OF inv h st Some] .
    let ?h1 = "track (the_node bs z) pre x hist"
    show ?thesis
    proof (cases "xs \<noteq> [] \<and> nchild (bs ! z) \<noteq> 0")
      case False
      have code: "add_lru_descend st pre (x # xs) (the_node bs h) hist
                    = Some (Inr (the_node bs z, ?h1, xs, st))"
        using ens False by (auto simp: has_child_def)
      have res: "resolve bs h [x] = Some z" using Some by simp
      have taken: "\<exists>taken. x # xs = taken @ xs \<and> taken \<noteq> [] \<and> resolve bs h taken = Some z"
        using res by (intro exI [of _ "[x]"]) simp
      have noop: "\<forall>b0. resolve bs h (x # xs) = Some b0 \<longrightarrow> xs = [] \<and> z = b0"
        using resolve_Cons [OF inv h Some, of xs] False by auto
      have rules: "?h1 = walk_history_from bs h pre (x # xs) hist"
        using Some False by auto
      show ?thesis
        apply (rule exI [of _ z], rule exI [of _ ?h1], rule exI [of _ xs], rule exI [of _ st])
        using code inv st z taken noop rules False by auto
    next
      case True
      let ?h' = "nchild (bs ! z)"
      note c = trie_inv_child [OF inv z] True
      have h': "LRU_TRIE_NODE_HEADER_BLOCKS \<le> ?h'" "?h' < length bs" using c z by simp_all
      have z_pos: "z \<noteq> 0" using z(1) header_blocks_pos by simp
      have head': "list_head bs (nparent (bs ! ?h')) = ?h'"
        using c z_pos by (simp add: list_head_def)
      have rd: "read_child st (the_node bs z) = Inr (the_node bs ?h')"
        using read_child_the_node [of bs z st] True h' st by simp
      have code: "add_lru_descend st pre (x # xs) (the_node bs h) hist
                    = add_lru_descend st (pre @ [x]) xs (the_node bs ?h') ?h1"
        using ens True rd by (simp add: has_child_def)
      from Cons.IH [OF inv h' head' st, of "pre @ [x]" ?h1] True
      obtain b hist' rest st' where i:
        "add_lru_descend st (pre @ [x]) xs (the_node bs ?h') ?h1
           = Some (Inr (the_node (blocks st') b, hist', rest, st'))"
        "trie_inv (blocks st')" "extends bs (blocks st')"
        "LRU_TRIE_NODE_HEADER_BLOCKS \<le> b" "b < length (blocks st')"
        "\<exists>taken. xs = taken @ rest \<and> taken \<noteq> [] \<and> resolve (blocks st') ?h' taken = Some b"
        "rest \<noteq> [] \<longrightarrow> nchild (blocks st' ! b) = 0"
        "\<forall>b0. resolve bs ?h' xs = Some b0 \<longrightarrow> st' = st \<and> rest = [] \<and> b = b0"
        "hist' = walk_history_from bs ?h' (pre @ [x]) xs ?h1"
        "no_dangling bs \<longrightarrow> no_dangling (blocks st') \<and> ordered_writes st st'"
        by blast
      from i(6) obtain taken where tk: "xs = taken @ rest" "taken \<noteq> []"
        "resolve (blocks st') ?h' taken = Some b" by blast
      have g: "grows bs (blocks st')" using extends_grows [OF i(3)] .
      have hl: "h < length (blocks st')" using grows_length [OF g] h(2) by simp
      have fs': "find_sibling (blocks st') h ?c = Some z"
        using find_sibling_grows [OF inv h i(2) g Some] .
      have kid': "nchild (blocks st' ! z) = ?h'"
        using grows_nchild [OF g z(2)] True by simp
      have res: "resolve (blocks st') h (x # taken) = Some b"
        using resolve_Cons [OF i(2) h(1) hl fs', of taken] tk(2,3) kid' True by simp
      have taken: "\<exists>tk. x # xs = tk @ rest \<and> tk \<noteq> [] \<and> resolve (blocks st') h tk = Some b"
        using res tk(1) by (intro exI [of _ "x # taken"]) simp
      have noop: "\<forall>b0. resolve bs h (x # xs) = Some b0 \<longrightarrow> st' = st \<and> rest = [] \<and> b = b0"
        using resolve_Cons [OF inv h Some, of xs] True i(8) by simp
      have rules: "hist' = walk_history_from bs h pre (x # xs) hist"
        using i(9) Some True by simp
      show ?thesis
        apply (rule exI [of _ b], rule exI [of _ hist'], rule exI [of _ rest], rule exI [of _ st'])
        using code i(1,2,3,4,5,7,10) taken noop rules
        by simp
    qed
  qed
qed

lemma resolve_append:
  "resolve bs h taken = Some b \<Longrightarrow> rest \<noteq> [] \<Longrightarrow> nchild (bs ! b) \<noteq> 0
   \<Longrightarrow> resolve bs (nchild (bs ! b)) rest = Some b'
   \<Longrightarrow> resolve bs h (taken @ rest) = Some b'"
proof (induction bs h taken rule: resolve.induct)
  case (1 bs h)
  then show ?case by simp
next
  case (2 bs h x)
  then show ?case by (cases rest) simp_all
next
  case (3 bs h x y ys)
  from 3(2) obtain z where z: "find_sibling bs h (of_char x) = Some z"
    "nchild (bs ! z) \<noteq> 0" "resolve bs (nchild (bs ! z)) (y # ys) = Some b"
    by (auto split: option.splits if_splits)
  have "resolve bs (nchild (bs ! z)) ((y # ys) @ rest) = Some b'"
    using 3(1) [OF z(1) z(2) z(3) 3(3,4,5)] .
  then show ?case using z(1,2) by simp
qed

lemma root_is_head:
  assumes "trie_inv bs" "LRU_TRIE_NODE_HEADER_BLOCKS < length bs"
  shows "list_head bs (nparent (bs ! LRU_TRIE_NODE_HEADER_BLOCKS)) = LRU_TRIE_NODE_HEADER_BLOCKS"
proof -
  have "nparent (bs ! LRU_TRIE_NODE_HEADER_BLOCKS) = 0"
  proof (rule ccontr)
    assume a: "nparent (bs ! LRU_TRIE_NODE_HEADER_BLOCKS) \<noteq> 0"
    from trie_inv_parent [OF assms(1) order_refl assms(2) a] show False by auto
  qed
  then show ?thesis by (simp add: list_head_def)
qed

lemma history_init [simp]:
  "rules_to_apply LRUTrieWalkHistory = []" "page_was_created LRUTrieWalkHistory = False"
  by (simp_all add: LRUTrieWalkHistory_def)

lemma walk_history_page_was_created:
  "page_was_created (walk_history_from bs h pre S hist) = page_was_created hist"
  by (induction bs h pre S hist rule: walk_history_from.induct)
     (auto simp: track_page_was_created Let_def split: option.splits)

lemma add_lru_spec_present:
  assumes inv: "trie_inv bs" and st: "blocks st = bs" and S: "S \<noteq> []"
    and root: "LRU_TRIE_NODE_HEADER_BLOCKS < length bs"
  shows "\<exists>b hist st'. add_lru st S = Some (Inr (the_node (blocks st') b, hist, st'))
         \<and> trie_inv (blocks st') \<and> extends bs (blocks st')
         \<and> LRU_TRIE_NODE_HEADER_BLOCKS \<le> b \<and> b < length (blocks st')
         \<and> resolve (blocks st') LRU_TRIE_NODE_HEADER_BLOCKS S = Some b
         \<and> (\<forall>b0. resolve bs LRU_TRIE_NODE_HEADER_BLOCKS S = Some b0 \<longrightarrow> st' = st \<and> b = b0)
         \<and> hist = walk_history_from bs LRU_TRIE_NODE_HEADER_BLOCKS [] S LRUTrieWalkHistory
         \<and> (no_dangling bs \<longrightarrow> no_dangling (blocks st') \<and> ordered_writes st st')"
proof -
  let ?H = LRU_TRIE_NODE_HEADER_BLOCKS
  have rt: "root st = the_node bs ?H" using root_the_node [of st] root st by simp
  from add_lru_descend_spec [OF inv order_refl root root_is_head [OF inv root] st S,
      of "[]" LRUTrieWalkHistory]
  obtain b1 hist rest st1 where d:
    "add_lru_descend st [] S (the_node bs ?H) LRUTrieWalkHistory
       = Some (Inr (the_node (blocks st1) b1, hist, rest, st1))"
    "trie_inv (blocks st1)" "extends bs (blocks st1)"
    "?H \<le> b1" "b1 < length (blocks st1)"
    "\<exists>taken. S = taken @ rest \<and> taken \<noteq> [] \<and> resolve (blocks st1) ?H taken = Some b1"
    "rest \<noteq> [] \<longrightarrow> nchild (blocks st1 ! b1) = 0"
    "\<forall>b0. resolve bs ?H S = Some b0 \<longrightarrow> st1 = st \<and> rest = [] \<and> b1 = b0"
    "hist = walk_history_from bs ?H [] S LRUTrieWalkHistory"
    "no_dangling bs \<longrightarrow> no_dangling (blocks st1) \<and> ordered_writes st st1"
    by blast
  from d(6) obtain taken where tk: "S = taken @ rest" "taken \<noteq> []"
    "resolve (blocks st1) ?H taken = Some b1" by blast
  from add_lru_extend_spec [OF d(2,4,5) refl d(7)]
  obtain b2 st2 where e:
    "add_lru_extend st1 rest (the_node (blocks st1) b1) = Inr (the_node (blocks st2) b2, st2)"
    "trie_inv (blocks st2)" "extends (blocks st1) (blocks st2)"
    "?H \<le> b2" "b2 < length (blocks st2)"
    "rest = [] \<longrightarrow> b2 = b1 \<and> st2 = st1"
    "rest \<noteq> [] \<longrightarrow> nchild (blocks st2 ! b1) \<noteq> 0
        \<and> resolve (blocks st2) (nchild (blocks st2 ! b1)) rest = Some b2"
    "no_dangling (blocks st1) \<longrightarrow> no_dangling (blocks st2) \<and> ordered_writes st1 st2"
    by blast
  have code: "add_lru st S = Some (Inr (the_node (blocks st2) b2, hist, st2))"
    using rt d(1) e(1) by (simp add: add_lru_def)
  have ext: "extends bs (blocks st2)" using extends_trans [OF d(3) e(3)] .
  have hl: "?H < length (blocks st1)"
    using root grows_length [OF extends_grows [OF d(3)]] by simp
  have res: "resolve (blocks st2) ?H S = Some b2"
  proof (cases "rest = []")
    case True
    then show ?thesis using tk e(6) by simp
  next
    case False
    have "resolve (blocks st2) ?H taken = Some b1"
      using resolve_grows [OF d(2) order_refl hl e(2) extends_grows [OF e(3)] tk(3)] .
    then show ?thesis using resolve_append [of "blocks st2" ?H taken b1 rest b2] False e(7) tk(1)
      by simp
  qed
  have noop: "\<forall>b0. resolve bs ?H S = Some b0 \<longrightarrow> st2 = st \<and> b2 = b0"
    using d(8) e(6) by auto
  have tr: "no_dangling bs \<longrightarrow> no_dangling (blocks st2) \<and> ordered_writes st st2"
    using d(10) e(8) ordered_writes_trans by blast
  show ?thesis
    using code e(2,4,5) ext res noop d(9) tr by auto
qed

lemma add_lru_spec_absent:
  assumes len: "length bs = LRU_TRIE_NODE_HEADER_BLOCKS" and st: "blocks st = bs" and S: "S \<noteq> []"
  shows "\<exists>b hist st'. add_lru st S = Some (Inr (the_node (blocks st') b, hist, st'))
         \<and> trie_inv (blocks st') \<and> extends bs (blocks st')
         \<and> LRU_TRIE_NODE_HEADER_BLOCKS \<le> b \<and> b < length (blocks st')
         \<and> resolve (blocks st') LRU_TRIE_NODE_HEADER_BLOCKS S = Some b
         \<and> hist = LRUTrieWalkHistory
         \<and> (no_dangling bs \<longrightarrow> no_dangling (blocks st') \<and> ordered_writes st st')"
proof -
  let ?H = LRU_TRIE_NODE_HEADER_BLOCKS
  obtain x xs where Sx: "S = x # xs" using S by (cases S) auto
  let ?c = "of_char x :: nat"
  let ?bs1 = "bs @ [new_block ?c 0]"
  let ?st1 = "st\<lparr>blocks := ?bs1, trace := trace st @ [?bs1]\<rparr>"
  have rt: "root st = new_node None" using root_absent [of st] len st by simp
  have nth1: "?bs1 ! ?H = new_block ?c 0"
    using nth_append_length [of bs "new_block ?c 0"] len by simp
  have n1: "the_node ?bs1 ?H = \<lparr>block = Some (length bs), exists = True, data = new_block ?c 0\<rparr>"
    using len nth1 by (simp add: the_node_def)
  have inv1: "trie_inv ?bs1" using trie_inv_first [OF len] by simp
  have H1: "?H < length ?bs1" using len by simp
  have d: "add_lru_descend st [] S (new_node None) LRUTrieWalkHistory
             = Some (Inr (the_node ?bs1 ?H, LRUTrieWalkHistory, xs, ?st1))"
    using st n1 unfolding Sx
    by (simp add: ensure_char_absent track_fresh has_child_def)
  have kid0: "xs \<noteq> [] \<longrightarrow> nchild (?bs1 ! ?H) = 0" using nth1 by simp
  from add_lru_extend_spec [OF inv1 order_refl H1 _ kid0, of ?st1]
  obtain b2 st2 where e:
    "add_lru_extend ?st1 xs (the_node ?bs1 ?H) = Inr (the_node (blocks st2) b2, st2)"
    "trie_inv (blocks st2)" "extends ?bs1 (blocks st2)"
    "?H \<le> b2" "b2 < length (blocks st2)"
    "xs = [] \<longrightarrow> b2 = ?H \<and> st2 = ?st1"
    "xs \<noteq> [] \<longrightarrow> nchild (blocks st2 ! ?H) \<noteq> 0
        \<and> resolve (blocks st2) (nchild (blocks st2 ! ?H)) xs = Some b2"
    "no_dangling ?bs1 \<longrightarrow> no_dangling (blocks st2) \<and> ordered_writes ?st1 st2"
    by auto
  have code: "add_lru st S = Some (Inr (the_node (blocks st2) b2, LRUTrieWalkHistory, st2))"
    using rt d e(1) by (simp add: add_lru_def)
  have ext: "extends bs (blocks st2)"
    using extends_trans [OF extends_first e(3)] by simp
  have g: "grows ?bs1 (blocks st2)" using extends_grows [OF e(3)] .
  have H2: "?H < length (blocks st2)" using grows_length [OF g] H1 by simp
  have chr: "nchar (blocks st2 ! ?H) = ?c"
    using grows_nchar [OF g H1] nth1 by simp
  have fs: "find_sibling (blocks st2) ?H ?c = Some ?H"
    using find_sibling_self [OF e(2) order_refl H2 chr] .
  have res: "resolve (blocks st2) ?H S = Some b2"
    unfolding Sx using resolve_Cons [OF e(2) order_refl H2 fs, of xs] e(6,7) by auto
  have tr: "no_dangling bs \<longrightarrow> no_dangling (blocks st2) \<and> ordered_writes st st2"
  proof
    assume nd: "no_dangling bs"
    have nd1: "no_dangling ?bs1" using no_dangling_append [OF nd] by simp
    have "ordered_writes st ?st1"
      using ordered_writes_step [of "[?bs1]" st ?bs1] nd1 by simp
    then show "no_dangling (blocks st2) \<and> ordered_writes st st2"
      using e(8) nd1 ordered_writes_trans by blast
  qed
  show ?thesis
    using code e(2,4,5) ext res tr by auto
qed

lemma lru_node_from_spec:
  "trie_inv bs \<Longrightarrow> LRU_TRIE_NODE_HEADER_BLOCKS \<le> h \<Longrightarrow> h < length bs \<Longrightarrow> blocks st = bs
   \<Longrightarrow> S \<noteq> []
   \<Longrightarrow> lru_node_from st (the_node bs h) S = Some (Inr (map_option (the_node bs) (resolve bs h S)))"
proof (induction S arbitrary: h)
  case Nil
  then show ?case by simp
next
  case (Cons x xs)
  let ?c = "of_char x :: nat"
  note sib = lru_node_siblings_spec [OF Cons.prems(1-4), of ?c]
  show ?case
  proof (cases "find_sibling bs h ?c")
    case None
    then show ?thesis using sib by (cases xs) simp_all
  next
    case (Some z)
    note r = find_sibling_range [OF Cons.prems(2,3) Some]
    have z: "LRU_TRIE_NODE_HEADER_BLOCKS \<le> z" "z < length bs" using r by simp_all
    show ?thesis
    proof (cases "xs = []")
      case True
      then show ?thesis using sib Some by simp
    next
      case False
      show ?thesis
      proof (cases "nchild (bs ! z) = 0")
        case True
        then show ?thesis
          using sib Some False resolve_Cons [OF Cons.prems(1-3) Some, of xs]
          by (simp add: has_child_def)
      next
        case nz: False
        note c = trie_inv_child [OF Cons.prems(1) z nz]
        have h': "LRU_TRIE_NODE_HEADER_BLOCKS \<le> nchild (bs ! z)" "nchild (bs ! z) < length bs"
          using c z by simp_all
        have rd: "read_child st (the_node bs z) = Inr (the_node bs (nchild (bs ! z)))"
          using read_child_the_node [of bs z st] nz h' Cons.prems(4) by simp
        show ?thesis
          using sib Some False nz rd resolve_Cons [OF Cons.prems(1-3) Some, of xs]
            Cons.IH [OF Cons.prems(1) h' Cons.prems(4) False]
          by (simp add: has_child_def)
      qed
    qed
  qed
qed

lemma lru_node_spec:
  assumes "trie_inv bs" "LRU_TRIE_NODE_HEADER_BLOCKS < length bs" "blocks st = bs" "S \<noteq> []"
  shows "lru_node st S =
           Some (Inr (map_option (the_node bs) (resolve bs LRU_TRIE_NODE_HEADER_BLOCKS S)))"
  using lru_node_from_spec [OF assms(1) order_refl assms(2,3,4)] root_the_node [of st] assms(2,3)
  by (simp add: lru_node_def)

lemma blocks_empty_trie:
  "blocks (LRUTrie empty_storage) = [set_default_data None]"
  by (simp add: LRUTrie_def ensure_headers_def LRU_TRIE_NODE_HEADER_BLOCKS_def empty_storage_def
      node_at_def node_read_def storage_read_def new_node_def node_write_def storage_write_def
      Let_def)

lemma trie_inv_empty_trie: "trie_inv (blocks (LRUTrie empty_storage))"
  by (simp add: blocks_empty_trie trie_inv_def LRU_TRIE_NODE_HEADER_BLOCKS_def)

lemma no_dangling_empty_trie: "no_dangling (blocks (LRUTrie empty_storage))"
  by (simp add: blocks_empty_trie no_dangling_def set_default_data_def)

lemma add_lru_nonempty:
  assumes inv: "trie_inv (blocks st)" and S: "S \<noteq> []"
  shows "\<exists>b hist st'. add_lru st S = Some (Inr (the_node (blocks st') b, hist, st'))
         \<and> trie_inv (blocks st') \<and> extends (blocks st) (blocks st')
         \<and> LRU_TRIE_NODE_HEADER_BLOCKS \<le> b \<and> b < length (blocks st')
         \<and> resolve (blocks st') LRU_TRIE_NODE_HEADER_BLOCKS S = Some b
         \<and> page_was_created hist = False
         \<and> (no_dangling (blocks st) \<longrightarrow> no_dangling (blocks st') \<and> ordered_writes st st')"
proof (cases "LRU_TRIE_NODE_HEADER_BLOCKS < length (blocks st)")
  case True
  from add_lru_spec_present [OF inv refl S True]
  obtain b hist st' where
    "add_lru st S = Some (Inr (the_node (blocks st') b, hist, st'))"
    "trie_inv (blocks st')" "extends (blocks st) (blocks st')"
    "LRU_TRIE_NODE_HEADER_BLOCKS \<le> b" "b < length (blocks st')"
    "resolve (blocks st') LRU_TRIE_NODE_HEADER_BLOCKS S = Some b"
    "page_was_created hist = False"
    "no_dangling (blocks st) \<longrightarrow> no_dangling (blocks st') \<and> ordered_writes st st'"
    by (auto simp: walk_history_page_was_created)
  then show ?thesis by (intro exI conjI)
next
  case False
  then have "length (blocks st) = LRU_TRIE_NODE_HEADER_BLOCKS"
    using trie_inv_length [OF inv] by simp
  from add_lru_spec_absent [OF this refl S]
  obtain b hist st' where
    "add_lru st S = Some (Inr (the_node (blocks st') b, hist, st'))"
    "trie_inv (blocks st')" "extends (blocks st) (blocks st')"
    "LRU_TRIE_NODE_HEADER_BLOCKS \<le> b" "b < length (blocks st')"
    "resolve (blocks st') LRU_TRIE_NODE_HEADER_BLOCKS S = Some b"
    "page_was_created hist = False"
    "no_dangling (blocks st) \<longrightarrow> no_dangling (blocks st') \<and> ordered_writes st st'"
    by auto
  then show ?thesis by (intro exI conjI)
qed

lemma add_lru_total:
  assumes inv: "trie_inv (blocks st)"
  shows "\<exists>n hist st'. add_lru st S = Some (Inr (n, hist, st'))
           \<and> trie_inv (blocks st') \<and> extends (blocks st) (blocks st')
           \<and> (no_dangling (blocks st) \<longrightarrow> no_dangling (blocks st') \<and> ordered_writes st st')"
proof (cases "S = []")
  case True
  then show ?thesis using inv by (simp add: add_lru_def)
next
  case False
  from add_lru_nonempty [OF inv False]
  obtain b hist st' where
    "add_lru st S = Some (Inr (the_node (blocks st') b, hist, st'))"
    "trie_inv (blocks st')" "extends (blocks st) (blocks st')"
    "no_dangling (blocks st) \<longrightarrow> no_dangling (blocks st') \<and> ordered_writes st st'"
    by auto
  then show ?thesis by (intro exI conjI)
qed

lemma add_lrus_total:
  "trie_inv (blocks st) \<Longrightarrow>
   \<exists>st'. add_lrus st lrus = Some (Inr st') \<and> trie_inv (blocks st')"
proof (induction lrus arbitrary: st)
  case Nil
  then show ?case by simp
next
  case (Cons S lrus)
  from add_lru_total [OF Cons.prems, of S]
  obtain n hist st1 where a: "add_lru st S = Some (Inr (n, hist, st1))" "trie_inv (blocks st1)"
    by auto
  from Cons.IH [OF a(2)] show ?case using a(1) by simp
qed

lemma sibling_chars_distinct:
  assumes inv: "trie_inv bs" and b: "LRU_TRIE_NODE_HEADER_BLOCKS \<le> b" "b < length bs"
  shows "distinct (sibling_chars bs b)"
proof -
  have "inj_on (\<lambda>x. nchar (bs ! x)) (set (chain bs b))"
  proof (rule inj_onI)
    fix x y assume x: "x \<in> set (chain bs b)" and y: "y \<in> set (chain bs b)"
      and e: "nchar (bs ! x) = nchar (bs ! y)"
    have "nparent (bs ! x) = nparent (bs ! b)" "nparent (bs ! y) = nparent (bs ! b)"
      using chain_parent [OF inv b] x y by blast+
    then have "nparent (bs ! x) = nparent (bs ! y)" by simp
    then show "x = y"
      using trie_inv_unique [OF inv chain_header_le [OF b(1) x] chain_lt [OF b(2) x]
          chain_header_le [OF b(1) y] chain_lt [OF b(2) y]] e by simp
  qed
  then show ?thesis
    unfolding sibling_chars_def using chain_distinct [of bs b] by (simp add: distinct_map)
qed

lemma sibling_appended:
  assumes inv: "trie_inv bs" and b: "LRU_TRIE_NODE_HEADER_BLOCKS \<le> b" "b < length bs"
    and st: "blocks st = bs" and c: "c \<notin> set (sibling_chars bs b)"
  shows "\<exists>n st'. ensure_char_from_siblings st (the_node bs b) c = Some (Inr (n, st'))
           \<and> block n = Some (length bs)
           \<and> chain (blocks st') b = chain bs b @ [length bs]
           \<and> sibling_chars (blocks st') b = sibling_chars bs b @ [c]"
proof -
  let ?t = "last (chain bs b)"
  let ?bs' = "add_sibling bs ?t c"
  have none: "find_sibling bs b c = None"
    using c unfolding sibling_chars_def find_sibling_def by (auto simp: find_None_iff)
  have t_in: "?t \<in> set (chain bs b)" by simp
  have t_lt: "?t < length bs" using chain_lt [OF b(2) t_in] .
  have t_next: "nnext (bs ! ?t) = 0" using chain_last_next [OF inv b] .
  have ch: "chain ?bs' b = chain bs b @ [length bs]"
    using chain_add_sibling [OF inv b t_lt t_next] by simp
  have "map (\<lambda>x. nchar (?bs' ! x)) (chain bs b) = map (\<lambda>x. nchar (bs ! x)) (chain bs b)"
    using chain_lt [OF b(2)] by simp
  then have sc: "sibling_chars ?bs' b = sibling_chars bs b @ [c]"
    unfolding sibling_chars_def ch using t_lt by simp
  show ?thesis
    using ensure_char_new [OF inv b st none refl] ch sc by simp
qed

text \<open>Present and absent LRUs on a trie whose root block is written.\<close>

lemma add_lru_then_lru_node:
  assumes inv: "trie_inv (blocks st)" and S: "S \<noteq> []"
  shows "\<exists>n hist st' n'. add_lru st S = Some (Inr (n, hist, st'))
           \<and> lru_node st' S = Some (Inr (Some n')) \<and> block n' = block n \<and> block n \<noteq> None"
proof -
  from add_lru_nonempty [OF inv S]
  obtain b hist st' where a:
    "add_lru st S = Some (Inr (the_node (blocks st') b, hist, st'))"
    "trie_inv (blocks st')" "b < length (blocks st')" "LRU_TRIE_NODE_HEADER_BLOCKS \<le> b"
    "resolve (blocks st') LRU_TRIE_NODE_HEADER_BLOCKS S = Some b" by auto
  have root: "LRU_TRIE_NODE_HEADER_BLOCKS < length (blocks st')"
  proof (rule ccontr)
    assume "\<not> LRU_TRIE_NODE_HEADER_BLOCKS < length (blocks st')"
    then show False using a(3,4) by simp
  qed
  have "lru_node st' S = Some (Inr (Some (the_node (blocks st') b)))"
    using lru_node_spec [OF a(2) root refl S] a(5) by simp
  then show ?thesis using a(1) by simp
qed

lemma lru_node_absent:
  assumes "trie_inv (blocks st)" "LRU_TRIE_NODE_HEADER_BLOCKS < length (blocks st)" "S \<noteq> []"
    and "resolve (blocks st) LRU_TRIE_NODE_HEADER_BLOCKS S = None"
  shows "lru_node st S = Some (Inr None)"
  using lru_node_spec [OF assms(1,2) refl assms(3)] assms(4) by simp

subsection \<open>Flags and pages\<close>

lemma test_bit: "test f pos \<longleftrightarrow> bit f pos"
  by (simp add: test_def bit_iff_odd_drop_bit and_one_eq mod_2_eq_odd)

lemma test_flag: "test (flag f pos) q \<longleftrightarrow> test f q \<or> q = pos"
  by (auto simp: test_bit flag_def bit_or_iff bit_exp_iff)

lemma flag_idem: "test f pos \<Longrightarrow> flag f pos = f"
  by (rule bit_eqI) (auto simp: test_bit flag_def bit_or_iff bit_exp_iff)

lemma length_write_flags [simp]: "length (write_flags bs b f w) = length bs"
  by (simp add: write_flags_def)

lemma nth_write_flags:
  "y < length bs \<Longrightarrow>
   write_flags bs b f w ! y = (if y = b then (bs ! b)\<lparr>nflags := f, nwebentity := w\<rparr> else bs ! y)"
  by (cases "y = b") (simp_all add: write_flags_def)

lemma write_flags_fields [simp]:
  assumes "y < length bs"
  shows "nchar (write_flags bs b f w ! y) = nchar (bs ! y)"
    "nnext (write_flags bs b f w ! y) = nnext (bs ! y)"
    "nchild (write_flags bs b f w ! y) = nchild (bs ! y)"
    "nparent (write_flags bs b f w ! y) = nparent (bs ! y)"
    "nflags (write_flags bs b f w ! y) = (if y = b then f else nflags (bs ! y))"
    "nwebentity (write_flags bs b f w ! y) = (if y = b then w else nwebentity (bs ! y))"
  using assms by (simp_all add: nth_write_flags)

lemma write_flags_same:
  "f = nflags (bs ! b) \<Longrightarrow> w = nwebentity (bs ! b) \<Longrightarrow> write_flags bs b f w = bs"
  by (simp add: write_flags_def)

lemma trie_inv_write_flags: "trie_inv bs \<Longrightarrow> trie_inv (write_flags bs b f w)"
  by (rule trie_inv_cong [of bs]) simp_all

lemma grows_write_flags: "grows bs (write_flags bs b f w)"
  by (rule growsI) simp_all

lemma no_dangling_write_flags: "no_dangling bs \<Longrightarrow> no_dangling (write_flags bs b f w)"
  unfolding no_dangling_def by simp

lemma add_page_after_add_lru:
  assumes "add_lru st S = Some (Inr (the_node bs1 b, hist0, st1))" "blocks st1 = bs1"
    and "b < length bs1"
  shows "add_page st S =
           Some (Inr (if test (nflags (bs1 ! b)) LRU_TRIE_NODE_FLAG_PAGE
                      then (the_node bs1 b, hist0, st1)
                      else (let bs2 = write_flags bs1 b
                                        (flag (nflags (bs1 ! b)) LRU_TRIE_NODE_FLAG_PAGE)
                                        (nwebentity (bs1 ! b))
                            in (the_node bs2 b, hist0\<lparr>page_was_created := True\<rparr>,
                                st1\<lparr>blocks := bs2, trace := trace st1 @ [bs2]\<rparr>))))"
  using assms
  by (simp add: add_page_def is_page_def flag_as_page_def node_write_old the_node_def
      write_flags_def Let_def)

lemma add_page_total:
  assumes inv: "trie_inv (blocks st)"
  shows "\<exists>n hist st'. add_page st S = Some (Inr (n, hist, st'))
           \<and> trie_inv (blocks st')
           \<and> (no_dangling (blocks st) \<longrightarrow> no_dangling (blocks st') \<and> ordered_writes st st')"
proof -
  have main: "\<exists>n hist st'. add_page st S = Some (Inr (n, hist, st'))
           \<and> trie_inv (blocks st')
           \<and> (no_dangling (blocks st) \<longrightarrow> no_dangling (blocks st') \<and> ordered_writes st st')"
    if a: "add_lru st S = Some (Inr (the_node (blocks st1) b, hist0, st1))"
      "trie_inv (blocks st1)"
      "no_dangling (blocks st) \<longrightarrow> no_dangling (blocks st1) \<and> ordered_writes st st1"
      and bl: "b < length (blocks st1)"
    for b hist0 st1
  proof (cases "test (nflags (blocks st1 ! b)) LRU_TRIE_NODE_FLAG_PAGE")
    case True
    then show ?thesis using add_page_after_add_lru [OF a(1) refl bl] a(2,3) by simp
  next
    case False
    let ?bs2 = "write_flags (blocks st1) b
                  (flag (nflags (blocks st1 ! b)) LRU_TRIE_NODE_FLAG_PAGE)
                  (nwebentity (blocks st1 ! b))"
    let ?st2 = "st1\<lparr>blocks := ?bs2, trace := trace st1 @ [?bs2]\<rparr>"
    have code: "add_page st S
                  = Some (Inr (the_node ?bs2 b, hist0\<lparr>page_was_created := True\<rparr>, ?st2))"
      using add_page_after_add_lru [OF a(1) refl bl] False by (simp add: Let_def)
    have inv2: "trie_inv (blocks ?st2)" using trie_inv_write_flags [OF a(2)] by simp
    have tr: "no_dangling (blocks st) \<longrightarrow> no_dangling (blocks ?st2) \<and> ordered_writes st ?st2"
    proof
      assume nd: "no_dangling (blocks st)"
      then have nd1: "no_dangling (blocks st1)" "ordered_writes st st1" using a(3) by simp_all
      have nd2: "no_dangling ?bs2" using no_dangling_write_flags [OF nd1(1)] .
      have "ordered_writes st1 ?st2"
        using ordered_writes_step [of "[?bs2]" st1 ?bs2] nd2 by simp
      then show "no_dangling (blocks ?st2) \<and> ordered_writes st ?st2"
        using nd2 ordered_writes_trans [OF nd1(2)] by simp
    qed
    show ?thesis using code inv2 tr by (intro exI conjI)
  qed
  show ?thesis
  proof (cases "S = []")
    case False
    from add_lru_nonempty [OF inv False]
    obtain b hist st1 where
      "add_lru st S = Some (Inr (the_node (blocks st1) b, hist, st1))"
      "trie_inv (blocks st1)"
      "no_dangling (blocks st) \<longrightarrow> no_dangling (blocks st1) \<and> ordered_writes st st1"
      "b < length (blocks st1)"
      by auto
    then show ?thesis by (rule main)
  next
    case True
    show ?thesis
    proof (cases "LRU_TRIE_NODE_HEADER_BLOCKS < length (blocks st)")
      case present: True
      have "add_lru st S
              = Some (Inr (the_node (blocks st) LRU_TRIE_NODE_HEADER_BLOCKS, LRUTrieWalkHistory, st))"
        using True root_the_node [OF present] by (simp add: add_lru_def)
      then show ?thesis
        by (rule main) (use inv present in simp_all)
    next
      case False
      then have len: "length (blocks st) = LRU_TRIE_NODE_HEADER_BLOCKS"
        using trie_inv_length [OF inv] by simp
      let ?d = "(set_default_data None)\<lparr>nflags := flag 0 LRU_TRIE_NODE_FLAG_PAGE\<rparr>"
      let ?bs2 = "blocks st @ [?d]"
      let ?st2 = "st\<lparr>blocks := ?bs2, trace := trace st @ [?bs2]\<rparr>"
      have d: "nnext ?d = 0" "nchild ?d = 0" "nparent ?d = 0"
        by (simp_all add: set_default_data_def)
      have code: "add_page st S
                    = Some (Inr (\<lparr>block = Some (length (blocks st)), exists = True, data = ?d\<rparr>,
                                 LRUTrieWalkHistory\<lparr>page_was_created := True\<rparr>, ?st2))"
        using True root_absent [of st] len
        by (simp add: add_lru_def add_page_def is_page_def new_node_def set_default_data_def
            flag_as_page_def node_write_new)
      have inv2: "trie_inv (blocks ?st2)" using trie_inv_first [OF len d] by simp
      have tr: "no_dangling (blocks st) \<longrightarrow> no_dangling (blocks ?st2) \<and> ordered_writes st ?st2"
      proof
        assume nd: "no_dangling (blocks st)"
        have nd2: "no_dangling ?bs2" using no_dangling_append [OF nd] d by simp
        show "no_dangling (blocks ?st2) \<and> ordered_writes st ?st2"
          using ordered_writes_step [of "[?bs2]" st ?bs2] nd2 by simp
      qed
      show ?thesis using code inv2 tr by (intro exI conjI)
    qed
  qed
qed

lemma add_lru_a:
  "add_lru (LRUTrie empty_storage) ''a''
     = Some (Inr (\<lparr>block = Some 1, exists = True, data = new_block 97 0\<rparr>, LRUTrieWalkHistory,
          \<lparr>blocks = [set_default_data None, new_block 97 0],
           trace = [[set_default_data None], [set_default_data None, new_block 97 0]]\<rparr>))"
  by (simp add: add_lru_def root_def node_at_def node_read_def storage_read_def
      LRUTrie_def ensure_headers_def LRU_TRIE_NODE_HEADER_BLOCKS_def empty_storage_def
      new_node_def node_write_def storage_write_def Let_def ensure_char_from_siblings_def
      set_char_def track_def has_webentity_def has_webentity_creation_rule_def test_def
      has_child_def new_block_def set_default_data_def)

subsection \<open>Sibling lists are duplicate-free and in insertion order\<close>

text \<open>
  Claim C4: after any sequence of \<^verbatim>\<open>add_lru\<close> calls on an empty trie, the chars of every
  sibling list, from any of its blocks on, are pairwise distinct; and
  \<^verbatim>\<open>__ensure_char_from_siblings\<close> for a char that the list does not hold returns a node
  in a new block that is linked behind the last sibling: the list is the old list
  followed by the new block, so the order of the list is the order of insertion.
\<close>

theorem sibling_lists_distinct_and_in_insertion_order:
  "\<exists>st. add_lrus (LRUTrie empty_storage) lrus = Some (Inr st)
     \<and> (\<forall>b \<in> set [LRU_TRIE_NODE_HEADER_BLOCKS ..< length (blocks st)].
          distinct (sibling_chars (blocks st) b)
          \<and> (\<forall>c. c \<notin> set (sibling_chars (blocks st) b) \<longrightarrow>
               (\<exists>n st'. ensure_char_from_siblings st (the_node (blocks st) b) c
                            = Some (Inr (n, st'))
                  \<and> block n = Some (length (blocks st))
                  \<and> chain (blocks st') b = chain (blocks st) b @ [length (blocks st)]
                  \<and> sibling_chars (blocks st') b = sibling_chars (blocks st) b @ [c])))"
proof -
  from add_lrus_total [OF trie_inv_empty_trie, of lrus]
  obtain st where st: "add_lrus (LRUTrie empty_storage) lrus = Some (Inr st)"
    "trie_inv (blocks st)" by auto
  have "distinct (sibling_chars (blocks st) b)
          \<and> (\<forall>c. c \<notin> set (sibling_chars (blocks st) b) \<longrightarrow>
               (\<exists>n st'. ensure_char_from_siblings st (the_node (blocks st) b) c
                            = Some (Inr (n, st'))
                  \<and> block n = Some (length (blocks st))
                  \<and> chain (blocks st') b = chain (blocks st) b @ [length (blocks st)]
                  \<and> sibling_chars (blocks st') b = sibling_chars (blocks st) b @ [c]))"
    if b: "LRU_TRIE_NODE_HEADER_BLOCKS \<le> b" "b < length (blocks st)" for b
    using sibling_chars_distinct [OF st(2) b] sibling_appended [OF st(2) b refl] by blast
  then show ?thesis using st(1) by auto
qed

theorem sibling_lists_witness:
  "\<exists>st. add_lrus (LRUTrie empty_storage) [''a''] = Some (Inr st)
     \<and> blocks st = [set_default_data None, new_block 97 0]
     \<and> distinct (sibling_chars (blocks st) 1)
     \<and> (\<exists>n st'. ensure_char_from_siblings st (the_node (blocks st) 1) 98 = Some (Inr (n, st'))
           \<and> block n = Some 2
           \<and> sibling_chars (blocks st') 1 = [97, 98])"
proof -
  from sibling_lists_distinct_and_in_insertion_order [of "[''a'']"]
  obtain st where st: "add_lrus (LRUTrie empty_storage) [''a''] = Some (Inr st)"
    and all: "\<forall>b \<in> set [LRU_TRIE_NODE_HEADER_BLOCKS ..< length (blocks st)].
          distinct (sibling_chars (blocks st) b)
          \<and> (\<forall>c. c \<notin> set (sibling_chars (blocks st) b) \<longrightarrow>
               (\<exists>n st'. ensure_char_from_siblings st (the_node (blocks st) b) c
                            = Some (Inr (n, st'))
                  \<and> block n = Some (length (blocks st))
                  \<and> chain (blocks st') b = chain (blocks st) b @ [length (blocks st)]
                  \<and> sibling_chars (blocks st') b = sibling_chars (blocks st) b @ [c]))"
    by blast
  have bl: "blocks st = [set_default_data None, new_block 97 0]"
    using st by (auto simp: add_lru_a)
  have sc: "sibling_chars (blocks st) 1 = [97]"
    by (simp add: bl sibling_chars_def)
  have "(1::nat) \<in> set [LRU_TRIE_NODE_HEADER_BLOCKS ..< length (blocks st)]"
    by (simp add: bl LRU_TRIE_NODE_HEADER_BLOCKS_def)
  with all have one: "distinct (sibling_chars (blocks st) 1)
          \<and> (\<forall>c. c \<notin> set (sibling_chars (blocks st) 1) \<longrightarrow>
               (\<exists>n st'. ensure_char_from_siblings st (the_node (blocks st) 1) c
                            = Some (Inr (n, st'))
                  \<and> block n = Some (length (blocks st))
                  \<and> chain (blocks st') 1 = chain (blocks st) 1 @ [length (blocks st)]
                  \<and> sibling_chars (blocks st') 1 = sibling_chars (blocks st) 1 @ [c]))"
    by blast
  then have "\<exists>n st'. ensure_char_from_siblings st (the_node (blocks st) 1) 98
                            = Some (Inr (n, st'))
                  \<and> block n = Some (length (blocks st))
                  \<and> chain (blocks st') 1 = chain (blocks st) 1 @ [length (blocks st)]
                  \<and> sibling_chars (blocks st') 1 = sibling_chars (blocks st) 1 @ [98]"
    using sc by simp
  then obtain n st' where e:
    "ensure_char_from_siblings st (the_node (blocks st) 1) 98 = Some (Inr (n, st'))"
    "block n = Some (length (blocks st))"
    "sibling_chars (blocks st') 1 = sibling_chars (blocks st) 1 @ [98]"
    by blast
  have e2: "block n = Some 2" using e(2) bl by simp
  have e3: "sibling_chars (blocks st') 1 = [97, 98]" using e(3) sc by simp
  have d: "distinct (sibling_chars (blocks st) 1)" using one by blast
  show ?thesis using st bl d e(1) e2 e3 by blast
qed

subsection \<open>The order of the writes\<close>

text \<open>
  Claim C5: on a well-formed storage none of whose pointers dangles, \<^verbatim>\<open>add_lru\<close> and
  \<^verbatim>\<open>add_page\<close> return, and after each of their writes no pointer of the storage
  references a block that is not written: a new block is written before the write that
  makes a pointer of an existing block reference it.
\<close>

theorem writes_are_ordered:
  assumes "trie_inv (blocks st)" and "no_dangling (blocks st)"
  shows "(\<exists>n hist st'. add_lru st lru = Some (Inr (n, hist, st')) \<and> ordered_writes st st')
       \<and> (\<exists>n hist st'. add_page st lru = Some (Inr (n, hist, st')) \<and> ordered_writes st st')"
proof
  from add_lru_total [OF assms(1), of lru] assms(2)
  show "\<exists>n hist st'. add_lru st lru = Some (Inr (n, hist, st')) \<and> ordered_writes st st'"
    by blast
  from add_page_total [OF assms(1), of lru] assms(2)
  show "\<exists>n hist st'. add_page st lru = Some (Inr (n, hist, st')) \<and> ordered_writes st st'"
    by blast
qed

theorem writes_are_ordered_witness:
  "trie_inv (blocks (LRUTrie empty_storage)) \<and> no_dangling (blocks (LRUTrie empty_storage))
   \<and> (\<exists>n hist st'. add_lru (LRUTrie empty_storage) ''ab'' = Some (Inr (n, hist, st'))
         \<and> ordered_writes (LRUTrie empty_storage) st')
   \<and> (\<exists>n hist st'. add_page (LRUTrie empty_storage) ''ab'' = Some (Inr (n, hist, st'))
         \<and> ordered_writes (LRUTrie empty_storage) st')"
proof -
  have i: "trie_inv (blocks (LRUTrie empty_storage))"
    by (simp add: blocks_empty_trie trie_inv_def LRU_TRIE_NODE_HEADER_BLOCKS_def)
  have n: "no_dangling (blocks (LRUTrie empty_storage))"
    by (simp add: blocks_empty_trie no_dangling_def set_default_data_def)
  show ?thesis using writes_are_ordered [OF i n, of "''ab''"] i n by simp
qed

subsection \<open>Lookup on a trie without a root\<close>

text \<open>
  Claim C3 says that \<^verbatim>\<open>lru_node\<close> finds the node \<^verbatim>\<open>add_lru\<close> returned, and that it
  returns the absent node when no node of the scanned sibling list carries the char.
  The first part holds on every well-formed storage (\<open>add_lru_then_lru_node\<close>), and so
  does the second when the root block is written (\<open>lru_node_absent\<close>). On a trie with
  no root block the root node does not exist and holds the default data, whose char
  is 0: \<^verbatim>\<open>lru_node\<close> does not test \<^verbatim>\<open>exists\<close>, as \<^verbatim>\<open>__ensure_char_from_siblings\<close>
  does, and for the LRU made of the char 0 it returns that node, which is in no
  block, where no sibling list holds any node.
\<close>

theorem lru_node_phantom_on_empty_trie:
  "lru_node (LRUTrie empty_storage) [CHR 0x00]
     = Some (Inr (Some \<lparr>block = None, exists = False, data = set_default_data None\<rparr>))"
  unfolding lru_node_def lru_node_from.simps
  by (subst lru_node_siblings.simps)
     (simp add: root_def node_at_def node_read_def storage_read_def
      blocks_empty_trie LRU_TRIE_NODE_HEADER_BLOCKS_def new_node_def
      node_char_def set_default_data_def)


subsection \<open>Opening a folder\<close>

lemma block_size: "LRU_TRIE_NODE_BLOCK_SIZE = 32"
  by (simp add: LRU_TRIE_NODE_BLOCK_SIZE_def struct_calcsize_def struct_fields_def
      LRU_TRIE_NODE_FORMAT_def numeral_2_eq_2 numeral_3_eq_3)

lemma mixed_existence_is_an_error:
  "folder_kind fs = Directory \<Longrightarrow> (lru_trie_dat fs = None) \<noteq> (link_store_dat fs = None)
   \<Longrightarrow> traph_open_files overwrite fs = (fs, Inl TraphException)"
  by (auto simp: traph_open_files_def Let_def)

text \<open>
  Claim C6 says that opening raises when exactly one of the two files exists, and when
  the size of an existing file is not a multiple of the block size. The first holds
  (\<open>mixed_existence_is_an_error\<close>: the error is raised with the file system as it was).
  The second check is the \<^verbatim>\<open>TODO\<close> of line 67: with both files there and a trie file
  of 33 bytes, one more than a block, no error is raised and the files are opened as
  they are.
\<close>

theorem open_does_not_check_file_size:
  "33 mod LRU_TRIE_NODE_BLOCK_SIZE \<noteq> 0
   \<and> traph_open_files False
        \<lparr>folder_kind = Directory, lru_trie_dat = Some 33, link_store_dat = Some 0\<rparr>
     = (\<lparr>folder_kind = Directory, lru_trie_dat = Some 33, link_store_dat = Some 0\<rparr>, Inr False)"
  by (simp add: block_size traph_open_files_def)

subsection \<open>Depth-first iteration from a node\<close>

lemma dfs_iter_arguments: "dfs_iter st (a # arguments) = Some (Inl TypeError)"
  by (simp add: dfs_iter_def)

lemma add_webentity_creation_rule_raises:
  assumes "trie_inv (blocks (lru_trie_storage t))"
  shows "add_webentity_creation_rule lru_variations t rule_prefix pattern True
           = Some (Inl TypeError)"
proof -
  from add_lru_total [OF assms, of rule_prefix]
  obtain n hist st' where "add_lru (lru_trie_storage t) rule_prefix = Some (Inr (n, hist, st'))"
    by auto
  then show ?thesis
    by (simp add: add_webentity_creation_rule_def dfs_iter_arguments split_def Let_def)
qed

text \<open>
  Claim C8 says that the depth-first iterator can start from a given node and LRU
  prefix, and that \<^verbatim>\<open>add_webentity_creation_rule\<close> with \<^verbatim>\<open>write_in_trie\<close> runs it from the
  node of the rule prefix without error. The iterator of \<^verbatim>\<open>lru_trie.py\<close> takes no
  argument and starts from the root; the call with the node and the prefix raises
  \<^verbatim>\<open>TypeError\<close>, on a new \<^verbatim>\<open>Traph\<close> as on every well-formed trie
  (\<open>add_webentity_creation_rule_raises\<close>), after the rule is flagged in the trie.
\<close>

theorem add_webentity_creation_rule_type_error:
  "add_webentity_creation_rule lru_variations (Traph default_rule) ''a'' pattern True
     = Some (Inl TypeError)"
  by (rule add_webentity_creation_rule_raises) (simp add: Traph_def trie_inv_empty_trie)

subsection \<open>The record format\<close>

text \<open>
  Claim C7 says that a trie node record holds, besides char, flags, next, child and
  parent, an outlinks head, an inlinks head and a webentity id. The format of the
  source packs five values, the ones at the five positions it names: a block has no
  place for the adjacency-list heads nor for the webentity id, and the webentity id
  that the callers of \<^verbatim>\<open>set_webentity\<close> expect to be stored is not among the packed
  values.
\<close>

theorem node_record_has_five_fields:
  "struct_fields LRU_TRIE_NODE_FORMAT = [B, B, Q, Q, Q]
   \<and> length (pack d) = length (struct_fields LRU_TRIE_NODE_FORMAT)
   \<and> pack d ! LRU_TRIE_NODE_CHAR = nchar d
   \<and> pack d ! LRU_TRIE_NODE_FLAGS = nflags d
   \<and> pack d ! LRU_TRIE_NODE_NEXT_BLOCK = nnext d
   \<and> pack d ! LRU_TRIE_NODE_CHILD_BLOCK = nchild d
   \<and> pack d ! LRU_TRIE_NODE_PARENT_BLOCK = nparent d
   \<and> pack (d\<lparr>nwebentity := w\<rparr>) = pack d"
  by (simp add: struct_fields_def LRU_TRIE_NODE_FORMAT_def pack_def
      LRU_TRIE_NODE_CHAR_def LRU_TRIE_NODE_FLAGS_def LRU_TRIE_NODE_NEXT_BLOCK_def
      LRU_TRIE_NODE_CHILD_BLOCK_def LRU_TRIE_NODE_PARENT_BLOCK_def numeral_2_eq_2
      numeral_3_eq_3)

subsection \<open>The empty LRU\<close>

text \<open>
  Claim C10: for the empty LRU, \<^verbatim>\<open>add_lru\<close> returns the root node and leaves the
  storage as it is, so no block is allocated, and \<^verbatim>\<open>lru_node\<close> returns the root node,
  not the absent node. The root node is the node read at block 1: when that block is
  written, both methods return the node of block 1 with the data of the block; on a
  trie with no root block, both return the node object that the failed read leaves,
  which is in no block, does not exist and holds the default data.
\<close>

theorem empty_lru_is_root:
  "LRU_TRIE_NODE_HEADER_BLOCKS = 1
   \<and> (if 1 < length (blocks st)
      then add_lru st []
             = Some (Inr (\<lparr>block = Some 1, exists = True, data = blocks st ! 1\<rparr>,
                          LRUTrieWalkHistory, st))
           \<and> lru_node st []
             = Some (Inr (Some \<lparr>block = Some 1, exists = True, data = blocks st ! 1\<rparr>))
      else add_lru st []
             = Some (Inr (\<lparr>block = None, exists = False, data = set_default_data None\<rparr>,
                          LRUTrieWalkHistory, st))
           \<and> lru_node st []
             = Some (Inr (Some \<lparr>block = None, exists = False,
                                 data = set_default_data None\<rparr>)))"
  by (simp add: add_lru_def lru_node_def root_def node_at_def node_read_def storage_read_def
      new_node_def LRU_TRIE_NODE_HEADER_BLOCKS_def)

theorem empty_lru_is_root_witness:
  "add_lru \<lparr>blocks = example_blocks, trace = []\<rparr> []
     = Some (Inr (\<lparr>block = Some 1, exists = True,
                    data = \<lparr>nchar = 97, nflags = 6, nnext = 0, nchild = 0, nparent = 0,
                            nwebentity = 1\<rparr>\<rparr>,
                  LRUTrieWalkHistory, \<lparr>blocks = example_blocks, trace = []\<rparr>))
   \<and> lru_node \<lparr>blocks = example_blocks, trace = []\<rparr> []
     = Some (Inr (Some \<lparr>block = Some 1, exists = True,
                         data = \<lparr>nchar = 97, nflags = 6, nnext = 0, nchild = 0, nparent = 0,
                                 nwebentity = 1\<rparr>\<rparr>))
   \<and> add_lru (LRUTrie empty_storage) []
     = Some (Inr (\<lparr>block = None, exists = False, data = set_default_data None\<rparr>,
                  LRUTrieWalkHistory, LRUTrie empty_storage))
   \<and> lru_node (LRUTrie empty_storage) []
     = Some (Inr (Some \<lparr>block = None, exists = False, data = set_default_data None\<rparr>))"
  using empty_lru_is_root [of "\<lparr>blocks = example_blocks, trace = []\<rparr>"]
    empty_lru_is_root [of "LRUTrie empty_storage"]
  by (simp add: example_blocks_def blocks_empty_trie)

subsection \<open>Pages added by a batch of links\<close>

text \<open>
  The field \<open>added_pages\<close> of the state logs every call of \<^verbatim>\<open>__add_page\<close> with its LRU;
  no other method touches it.
\<close>

lemma add_prefixes_added_pages:
  "traph__add_prefixes t prefixes = Some (Inr (w, t')) \<Longrightarrow> added_pages t' = added_pages t"
  by (auto simp: traph__add_prefixes_def traph__generated_web_entity_id_def
      split: option.splits sum.splits)

lemma create_webentity_for_added_pages:
  "create_webentity_for lv t node report prefix = Some (Inr (n, r, t'))
   \<Longrightarrow> added_pages t' = added_pages t"
  by (auto simp: create_webentity_for_def dest: add_prefixes_added_pages
      split: option.splits sum.splits)

lemma traph__add_page_added_pages:
  "traph__add_page lv t lru = Some (Inr (n, r, t')) \<Longrightarrow> added_pages t' = added_pages t @ [lru]"
  by (auto simp: traph__add_page_def Let_def dest!: create_webentity_for_added_pages
      split: option.splits sum.splits if_splits)

lemma add_links_page_calls:
  assumes "add_links_page lv (t, r, pages) page = Some (Inr (t', r', pages'))"
  shows "added_pages t' = added_pages t @ (if page \<in> dom pages then [] else [page])
         \<and> dom pages' = insert page (dom pages)"
  using assms
  by (auto simp: add_links_page_def dest: traph__add_page_added_pages
      split: option.splits sum.splits if_splits)

lemma add_links_loop_calls:
  "add_links_loop lv links (t, r, pages) outlinks inlinks
     = Some (Inr ((t', r', pages'), outlinks', inlinks'))
   \<Longrightarrow> \<exists>calls. added_pages t' = added_pages t @ calls \<and> distinct calls
         \<and> set calls = (fst ` set links \<union> snd ` set links) - dom pages
         \<and> dom pages' = dom pages \<union> set calls"
proof (induction links arbitrary: t r pages outlinks inlinks)
  case Nil
  then show ?case by simp
next
  case (Cons link links)
  obtain source_page target_page where link: "link = (source_page, target_page)"
    by (cases link)
  from Cons.prems obtain t1 r1 pages1 where s1:
    "add_links_page lv (t, r, pages) source_page = Some (Inr (t1, r1, pages1))"
    unfolding link by (auto split: option.splits sum.splits)
  from Cons.prems s1 obtain t2 r2 pages2 where s2:
    "add_links_page lv (t1, r1, pages1) target_page = Some (Inr (t2, r2, pages2))"
    unfolding link by (auto split: option.splits sum.splits)
  from Cons.prems s1 s2 have rest:
    "add_links_loop lv links (t2, r2, pages2)
       (multimap_append source_page target_page outlinks)
       (multimap_append target_page source_page inlinks)
     = Some (Inr ((t', r', pages'), outlinks', inlinks'))"
    unfolding link by simp
  note c1 = add_links_page_calls [OF s1]
  note c2 = add_links_page_calls [OF s2]
  from Cons.IH [OF rest] obtain calls where c3:
    "added_pages t' = added_pages t2 @ calls" "distinct calls"
    "set calls = (fst ` set links \<union> snd ` set links) - dom pages2"
    "dom pages' = dom pages2 \<union> set calls"
    by blast
  let ?a = "if source_page \<in> dom pages then [] else [source_page]"
  let ?b = "if target_page \<in> dom pages1 then [] else [target_page]"
  have d2: "dom pages2 = insert target_page (insert source_page (dom pages))"
    using c1 c2 by simp
  have d1: "dom pages1 = insert source_page (dom pages)" using c1 by simp
  have log: "added_pages t' = added_pages t @ (?a @ ?b @ calls)"
    using c1 c2 c3(1) by simp
  have dist: "distinct (?a @ ?b @ calls)"
    using c3(2,3) d1 d2 by auto
  have set_eq: "set (?a @ ?b @ calls)
                  = (fst ` set (link # links) \<union> snd ` set (link # links)) - dom pages"
    unfolding link using c3(3) d1 d2 by auto
  have dom_eq: "dom pages' = dom pages \<union> set (?a @ ?b @ calls)"
    using c3(4) d1 d2 by auto
  show ?case using log dist set_eq dom_eq by blast
qed

text \<open>
  Evaluation of the methods on concrete storages.
\<close>

lemmas trie_eval =
  add_lru_def add_page_def root_def node_at_def node_read_def storage_read_def
  LRUTrie_def ensure_headers_def LRU_TRIE_NODE_HEADER_BLOCKS_def empty_storage_def
  new_node_def node_write_def storage_write_def Let_def ensure_char_from_siblings_def
  set_char_def track_def has_webentity_def has_webentity_creation_rule_def test_def
  has_child_def has_next_def set_default_data_def node_char_def is_page_def flag_as_page_def
  flag_def set_parent_def set_child_def set_next_def parent_of_def read_child_def
  read_next_def child_of_def next_of_def LRU_TRIE_NODE_FLAG_PAGE_def
  LRU_TRIE_NODE_FLAG_WEBENTITY_def LRU_TRIE_NODE_FLAG_WEBENTITY_CREATION_RULE_def
  LRUTrieWalkHistory_def update_webentity_def update_webentity_creation_rule_def
  webentity_def set_webentity_def follow_siblings.simps

lemmas traph_eval =
  traph__add_page_def create_webentity_for_def traph__add_prefixes_def
  traph__generated_web_entity_id_def expand_prefix_def
  traph__apply_webentity_default_creation_rule_def traph__apply_webentity_creation_rule_def
  TraphWriteReport_def Traph_def match_all_def match_empty_def single_variation_def

text \<open>
  Claim C9: within one call of \<^verbatim>\<open>add_links\<close>, \<^verbatim>\<open>__add_page\<close> is called at most once for
  each LRU of the batch, however many pairs mention it. The calls of a batch that
  returns are a duplicate-free list, and they are the LRUs that occur in the batch as
  a source or as a target.
\<close>

theorem add_links_adds_each_page_once:
  assumes "traph_add_links lv add_outlinks add_inlinks t links = Some (Inr (report, t'))"
  shows "\<exists>calls. added_pages t' = added_pages t @ calls \<and> distinct calls
           \<and> set calls = fst ` set links \<union> snd ` set links"
proof -
  from assms obtain t1 r1 pages outlinks inlinks where loop:
    "add_links_loop lv links (t, TraphWriteReport, Map.empty) [] []
       = Some (Inr ((t1, r1, pages), outlinks, inlinks))"
    and t': "added_pages t' = added_pages t1"
    by (auto simp: traph_add_links_def split: option.splits sum.splits)
  from add_links_loop_calls [OF loop] show ?thesis using t' by auto
qed

theorem add_links_adds_each_page_once_witness:
  "\<exists>report t' calls.
     traph_add_links single_variation (\<lambda>n bs s. Inr s) (\<lambda>n bs s. Inr s) (Traph match_all)
       [(''a'', ''b''), (''a'', ''b'')] = Some (Inr (report, t'))
     \<and> added_pages t' = added_pages (Traph match_all) @ calls \<and> distinct calls
     \<and> set calls = {''a'', ''b''}"
proof -
  have "\<exists>report t'.
     traph_add_links single_variation (\<lambda>n bs s. Inr s) (\<lambda>n bs s. Inr s) (Traph match_all)
       [(''a'', ''b''), (''a'', ''b'')] = Some (Inr (report, t'))"
    by (simp add: traph_add_links_def add_links_page_def multimap_append_def report_add_def
        trie_eval traph_eval)
  then obtain report t' where run:
    "traph_add_links single_variation (\<lambda>n bs s. Inr s) (\<lambda>n bs s. Inr s) (Traph match_all)
       [(''a'', ''b''), (''a'', ''b'')] = Some (Inr (report, t'))"
    by blast
  from add_links_adds_each_page_once [OF run] obtain calls where
    "added_pages t' = added_pages (Traph match_all) @ calls" "distinct calls"
    "set calls = {''a'', ''b''}"
    by auto
  with run show ?thesis by blast
qed

subsection \<open>The longest candidate prefix\<close>

text \<open>
  The loop of \<^verbatim>\<open>__add_page\<close> returns a prefix that is at least as long as every
  candidate prefix of the triggered rules, and that is one of them unless it is empty.
\<close>

lemma longest_candidate_prefix_loop_cong:
  "webentity_creation_rules t' = webentity_creation_rules t
   \<Longrightarrow> longest_candidate_prefix_loop t' rules lru acc
       = longest_candidate_prefix_loop t rules lru acc"
  by (induction rules arbitrary: acc)
     (simp_all add: traph__apply_webentity_creation_rule_def split: option.split)

lemma longest_candidate_prefix_loop_spec:
  "longest_candidate_prefix_loop t rules lru acc = Inr c
   \<Longrightarrow> length acc \<le> length c
       \<and> (\<forall>c'\<in>set (candidate_prefixes t rules lru). length c' \<le> length c)
       \<and> (c = acc \<or> c \<noteq> [] \<and> c \<in> set (candidate_prefixes t rules lru))"
proof (induction rules arbitrary: acc)
  case Nil
  then show ?case by (simp add: candidate_prefixes_def)
next
  case (Cons rule_prefix rules)
  from Cons.prems obtain regexp where r: "webentity_creation_rules t rule_prefix = Some regexp"
    by (auto simp: traph__apply_webentity_creation_rule_def split: option.splits)
  let ?acc = "case regexp lru of None \<Rightarrow> acc
              | Some c \<Rightarrow> if c \<noteq> [] \<and> length c > length acc then c else acc"
  from Cons.prems r have rest: "longest_candidate_prefix_loop t rules lru ?acc = Inr c"
    by (simp add: traph__apply_webentity_creation_rule_def)
  note ih = Cons.IH [OF rest]
  have cs: "candidate_prefixes t (rule_prefix # rules) lru
              = (case regexp lru of None \<Rightarrow> [] | Some c \<Rightarrow> [c]) @ candidate_prefixes t rules lru"
    using r by (simp add: candidate_prefixes_def)
  show ?case
  proof (cases "regexp lru")
    case None
    then show ?thesis using ih cs by simp
  next
    case (Some c0)
    show ?thesis
    proof (cases "c0 \<noteq> [] \<and> length c0 > length acc")
      case True
      then show ?thesis using ih cs Some by auto
    next
      case False
      then have "length c0 \<le> length acc" by (cases c0) auto
      then show ?thesis using ih cs Some False by auto
    qed
  qed
qed

text \<open>
  When the selected prefix is not empty, \<^verbatim>\<open>__add_page\<close> tests whether the nearest
  webentity of the walk covers it: the selected prefix is as long as the longest
  candidate, it is one of the candidates, and if its length is at most
  \<open>webentity_position + 1\<close> then the method returns the node with an empty report,
  allocates no webentity id and leaves the trie storage as \<^verbatim>\<open>add_page\<close> of the trie
  left it.
\<close>

lemma covered_candidate_creates_no_webentity:
  assumes "add_page (lru_trie_storage t) lru = Some (Inr (node, history, st1))"
    and "longest_candidate_prefix_loop t (rules_to_apply history) lru [] = Inr c"
  shows "(\<forall>c'\<in>set (candidate_prefixes t (rules_to_apply history) lru). length c' \<le> length c)
         \<and> (c \<noteq> [] \<longrightarrow> c \<in> set (candidate_prefixes t (rules_to_apply history) lru))
         \<and> (c \<noteq> [] \<and> int (length c) \<le> webentity_position history + 1 \<longrightarrow>
              (\<exists>t'. traph__add_page lru_variations t lru = Some (Inr (node, TraphWriteReport, t'))
                    \<and> last_webentity_id t' = last_webentity_id t
                    \<and> lru_trie_storage t' = st1
                    \<and> links_store_storage t' = links_store_storage t))"
proof -
  let ?t1 = "t\<lparr>lru_trie_storage := st1, added_pages := added_pages t @ [lru]\<rparr>"
  have loop: "longest_candidate_prefix_loop ?t1 (rules_to_apply history) lru [] = Inr c"
    using assms(2) longest_candidate_prefix_loop_cong [of ?t1 t] by simp
  note spec = longest_candidate_prefix_loop_spec [OF assms(2)]
  have a: "\<forall>c'\<in>set (candidate_prefixes t (rules_to_apply history) lru). length c' \<le> length c"
    using spec by blast
  have b: "c \<noteq> [] \<longrightarrow> c \<in> set (candidate_prefixes t (rules_to_apply history) lru)"
    using spec by blast
  have c: "traph__add_page lru_variations t lru = Some (Inr (node, TraphWriteReport, ?t1))"
    if "c \<noteq> []" "int (length c) \<le> webentity_position history + 1"
    using that assms(1) loop by (simp add: traph__add_page_def Let_def)
  have d: "c \<noteq> [] \<and> int (length c) \<le> webentity_position history + 1 \<longrightarrow>
              (\<exists>t'. traph__add_page lru_variations t lru = Some (Inr (node, TraphWriteReport, t'))
                    \<and> last_webentity_id t' = last_webentity_id t
                    \<and> lru_trie_storage t' = st1
                    \<and> links_store_storage t' = links_store_storage t)"
  proof (intro impI, elim conjE)
    assume h: "c \<noteq> []" "int (length c) \<le> webentity_position history + 1"
    show "\<exists>t'. traph__add_page lru_variations t lru = Some (Inr (node, TraphWriteReport, t'))
                    \<and> last_webentity_id t' = last_webentity_id t
                    \<and> lru_trie_storage t' = st1
                    \<and> links_store_storage t' = links_store_storage t"
      by (rule exI [of _ ?t1]) (simp add: c [OF h])
  qed
  show ?thesis using a b d by (intro conjI)
qed

lemma covered_candidate_example:
  "\<exists>node history st1 t'.
     add_page (lru_trie_storage example_covered) ''a'' = Some (Inr (node, history, st1))
     \<and> longest_candidate_prefix_loop example_covered (rules_to_apply history) ''a'' [] = Inr ''a''
     \<and> candidate_prefixes example_covered (rules_to_apply history) ''a'' = [''a'']
     \<and> int (length ''a'') \<le> webentity_position history + 1
     \<and> traph__add_page single_variation example_covered ''a''
         = Some (Inr (node, TraphWriteReport, t'))
     \<and> last_webentity_id t' = last_webentity_id example_covered
     \<and> lru_trie_storage t' = st1"
proof -
  have "\<exists>node history st1.
     add_page (lru_trie_storage example_covered) ''a'' = Some (Inr (node, history, st1))
     \<and> longest_candidate_prefix_loop example_covered (rules_to_apply history) ''a'' [] = Inr ''a''
     \<and> candidate_prefixes example_covered (rules_to_apply history) ''a'' = [''a'']
     \<and> int (length ''a'') \<le> webentity_position history + 1"
    by (simp add: trie_eval traph_eval example_traph_def example_blocks_def example_covered_def
        candidate_prefixes_def)
  then obtain node history st1 where run:
    "add_page (lru_trie_storage example_covered) ''a'' = Some (Inr (node, history, st1))"
    "longest_candidate_prefix_loop example_covered (rules_to_apply history) ''a'' [] = Inr ''a''"
    "candidate_prefixes example_covered (rules_to_apply history) ''a'' = [''a'']"
    "int (length ''a'') \<le> webentity_position history + 1"
    by blast
  from covered_candidate_creates_no_webentity [OF run(1,2), of single_variation] run(4)
  obtain t' where
    "traph__add_page single_variation example_covered ''a''
         = Some (Inr (node, TraphWriteReport, t'))"
    "last_webentity_id t' = last_webentity_id example_covered"
    "lru_trie_storage t' = st1"
    by auto
  with run show ?thesis by blast
qed

text \<open>
  Claim C1 says that the longest candidate prefix is selected and that no webentity is
  created, and no id allocated, when its length is at most \<open>webentity_position + 1\<close>.
  On the example trie the node of the LRU \<^verbatim>\<open>a\<close> is the prefix of webentity 1 and carries
  a rule whose pattern matches the empty string: the only candidate for the LRU \<^verbatim>\<open>a\<close>
  is the empty string, the loop selects the empty string, and its length 0 is at most
  \<open>webentity_position + 1 = 1\<close>. The test of line 177 is guarded by
  \<^verbatim>\<open>longest_candidate_prefix and\<close>, which is false for the empty string, and the
  method falls through to the default rule, which tests no coverage: it allocates the
  id 2 and gives the prefix \<^verbatim>\<open>a\<close>, held by webentity 1, to the new webentity 2. The
  comment of the method (case 3a) says that nothing happens when all the prefixes are
  smaller than or equal to an existing prefix.
\<close>

theorem empty_candidate_creates_a_webentity:
  "candidate_prefixes example_traph
     (rules_to_apply (fst (snd (projr (the (add_page (lru_trie_storage example_traph) ''a'')))))) ''a''
     = [[]]
   \<and> longest_candidate_prefix_loop example_traph
       (rules_to_apply (fst (snd (projr (the (add_page (lru_trie_storage example_traph) ''a''))))))
       ''a'' [] = Inr []
   \<and> int (length ([] :: string))
       \<le> webentity_position (fst (snd (projr (the (add_page (lru_trie_storage example_traph) ''a''))))) + 1
   \<and> test (nflags (blocks (lru_trie_storage example_traph) ! 1)) LRU_TRIE_NODE_FLAG_WEBENTITY
   \<and> nwebentity (blocks (lru_trie_storage example_traph) ! 1) = 1
   \<and> last_webentity_id example_traph = 1
   \<and> last_webentity_id
        (snd (snd (projr (the (traph__add_page single_variation example_traph ''a''))))) = 2
   \<and> created_webentities
        (fst (snd (projr (the (traph__add_page single_variation example_traph ''a''))))) 2
       = Some [''a'']
   \<and> nwebentity
        (blocks (lru_trie_storage
           (snd (snd (projr (the (traph__add_page single_variation example_traph ''a''))))))
         ! 1) = 2"
  by (simp add: trie_eval traph_eval example_traph_def example_blocks_def candidate_prefixes_def)

subsection \<open>Adding a page twice\<close>

text \<open>
  The history of a walk depends on the storage through the flags of the nodes of the
  path only: it is the same after the storage grew by unflagged nodes.
\<close>

lemma find_sibling_new:
  assumes "trie_inv bs" "LRU_TRIE_NODE_HEADER_BLOCKS \<le> b" "b < length bs"
    and "trie_inv bs'" "grows bs bs'" "find_sibling bs b c = None"
    and "find_sibling bs' b c = Some z"
  shows "length bs \<le> z"
  using assms(1-3) assms(6,7)
proof (induction rule: chain_induct_inv)
  case (last b)
  have b': "b < length bs'" using last(2) grows_length [OF assms(5)] by simp
  have ch: "nchar (bs' ! b) = nchar (bs ! b)" using grows_nchar [OF assms(5) last(2)] .
  have ne: "nchar (bs ! b) \<noteq> c"
    using last(5) find_sibling_step [OF assms(1) last(1,2), of c] by (auto split: if_splits)
  have nx: "nnext (bs' ! b) \<noteq> 0" "find_sibling bs' (nnext (bs' ! b)) c = Some z"
    using last(6) find_sibling_step [OF assms(4) last(1) b', of c] ne ch
    by (auto split: if_splits)
  have big: "length bs \<le> nnext (bs' ! b)"
    using grows_nnext_new [OF assms(5) last(2,3)] nx(1) by simp
  note r = trie_inv_next [OF assms(4) last(1) b' nx(1)]
  have "LRU_TRIE_NODE_HEADER_BLOCKS \<le> nnext (bs' ! b)" using r last(1) by simp
  from find_sibling_range [OF this _ nx(2)] r have "z \<in> set (chain bs' (nnext (bs' ! b)))"
    by simp
  then show ?case using chain_ge big by fastforce
next
  case (step b)
  have b': "b < length bs'" using step(2) grows_length [OF assms(5)] by simp
  have ch: "nchar (bs' ! b) = nchar (bs ! b)" using grows_nchar [OF assms(5) step(2)] .
  have nx: "nnext (bs' ! b) = nnext (bs ! b)" using grows_nnext [OF assms(5) step(2,3)] .
  have ne: "nchar (bs ! b) \<noteq> c" "find_sibling bs (nnext (bs ! b)) c = None"
    using step(9) find_sibling_step [OF assms(1) step(1,2), of c] step(3)
    by (auto split: if_splits)
  have "find_sibling bs' (nnext (bs ! b)) c = Some z"
    using step(10) find_sibling_step [OF assms(4) step(1) b', of c] ne ch nx step(3)
    by (auto split: if_splits)
  then show ?case using step(8) ne(2) by simp
qed

lemma walk_history_new:
  fixes E :: "walk_history \<Rightarrow> 'a"
  assumes inv': "trie_inv bs'"
    and new: "\<And>b pre x h. n \<le> b \<Longrightarrow> b < length bs'
                \<Longrightarrow> E (track (the_node bs' b) pre x h) = E h"
  shows "LRU_TRIE_NODE_HEADER_BLOCKS \<le> h \<Longrightarrow> n \<le> h \<Longrightarrow> h < length bs'
         \<Longrightarrow> E (walk_history_from bs' h pre S hist) = E hist"
proof (induction S arbitrary: h pre hist)
  case Nil
  then show ?case by simp
next
  case (Cons x xs)
  show ?case
  proof (cases "find_sibling bs' h (of_char x)")
    case None
    then show ?thesis by simp
  next
    case (Some z)
    note r = find_sibling_range [OF Cons.prems(1,3) Some]
    have hz: "h \<le> z" using r chain_ge by blast
    have nz: "n \<le> z" using hz Cons.prems(2) by simp
    have zl: "z < length bs'" using r by simp
    have t: "E (track (the_node bs' z) pre x hist) = E hist" using new [OF nz zl] .
    show ?thesis
    proof (cases "xs \<noteq> [] \<and> nchild (bs' ! z) \<noteq> 0")
      case True
      have c1: "z < nchild (bs' ! z) \<and> nchild (bs' ! z) < length bs'"
        using trie_inv_child [OF inv' _ zl] r True by simp
      have "E (walk_history_from bs' (nchild (bs' ! z)) (pre @ [x]) xs
                 (track (the_node bs' z) pre x hist))
            = E (track (the_node bs' z) pre x hist)"
        by (rule Cons.IH) (use c1 r nz in simp_all)
      then show ?thesis using Some True t by (simp add: Let_def)
    next
      case False
      then show ?thesis using Some t by (auto simp: Let_def)
    qed
  qed
qed

lemma walk_history_old:
  fixes E :: "walk_history \<Rightarrow> 'a"
  assumes inv: "trie_inv bs" and inv': "trie_inv bs'" and g: "grows bs bs'"
    and old: "\<And>b pre x h h'. LRU_TRIE_NODE_HEADER_BLOCKS \<le> b \<Longrightarrow> b < length bs
                \<Longrightarrow> E h' = E h
                \<Longrightarrow> E (track (the_node bs' b) pre x h') = E (track (the_node bs b) pre x h)"
    and new: "\<And>b pre x h. length bs \<le> b \<Longrightarrow> b < length bs'
                \<Longrightarrow> E (track (the_node bs' b) pre x h) = E h"
  shows "LRU_TRIE_NODE_HEADER_BLOCKS \<le> h \<Longrightarrow> h < length bs \<Longrightarrow> E hist' = E hist
         \<Longrightarrow> E (walk_history_from bs' h pre S hist') = E (walk_history_from bs h pre S hist)"
proof (induction S arbitrary: h pre hist hist')
  case Nil
  then show ?case by simp
next
  case (Cons x xs)
  have hl': "h < length bs'" using Cons.prems(2) grows_length [OF g] by simp
  show ?case
  proof (cases "find_sibling bs h (of_char x)")
    case None
    show ?thesis
    proof (cases "find_sibling bs' h (of_char x)")
      case None': None
      then show ?thesis using None Cons.prems(3) by simp
    next
      case (Some z)
      have zn: "length bs \<le> z"
        using find_sibling_new [OF inv Cons.prems(1,2) inv' g None Some] .
      note r = find_sibling_range [OF Cons.prems(1) hl' Some]
      have zl: "z < length bs'" using r by simp
      have t: "E (track (the_node bs' z) pre x hist') = E hist'" using new [OF zn zl] .
      show ?thesis
      proof (cases "xs \<noteq> [] \<and> nchild (bs' ! z) \<noteq> 0")
        case True
        have c1: "z < nchild (bs' ! z) \<and> nchild (bs' ! z) < length bs'"
          using trie_inv_child [OF inv' _ zl] r True by simp
        have "E (walk_history_from bs' (nchild (bs' ! z)) (pre @ [x]) xs
                   (track (the_node bs' z) pre x hist'))
              = E (track (the_node bs' z) pre x hist')"
          by (rule walk_history_new [OF inv', where n = "length bs"])
             (use c1 r zn new in simp_all)
        then show ?thesis using Some None True t Cons.prems(3) by (simp add: Let_def)
      next
        case False
        then show ?thesis using Some None t Cons.prems(3) by (auto simp: Let_def)
      qed
    qed
  next
    case (Some z)
    have f': "find_sibling bs' h (of_char x) = Some z"
      using find_sibling_grows [OF inv Cons.prems(1,2) inv' g Some] .
    note r = find_sibling_range [OF Cons.prems(1,2) Some]
    have zl: "z < length bs" and hz: "LRU_TRIE_NODE_HEADER_BLOCKS \<le> z" using r by simp_all
    have zl': "z < length bs'" using zl grows_length [OF g] by simp
    let ?h1' = "track (the_node bs' z) pre x hist'"
    let ?h1 = "track (the_node bs z) pre x hist"
    have t: "E ?h1' = E ?h1" using old [OF hz zl Cons.prems(3)] .
    show ?thesis
    proof (cases "xs = []")
      case True
      then show ?thesis using Some f' t by (simp add: Let_def)
    next
      case False
      show ?thesis
      proof (cases "nchild (bs ! z) = 0")
        case True
        show ?thesis
        proof (cases "nchild (bs' ! z) = 0")
          case True': True
          then show ?thesis using Some f' t True by (simp add: Let_def)
        next
          case False': False
          have big: "length bs \<le> nchild (bs' ! z)"
            using grows_nchild_new [OF g zl True] False' by simp
          have c1: "z < nchild (bs' ! z) \<and> nchild (bs' ! z) < length bs'"
            using trie_inv_child [OF inv' hz zl' False'] by simp
          have "E (walk_history_from bs' (nchild (bs' ! z)) (pre @ [x]) xs ?h1') = E ?h1'"
            by (rule walk_history_new [OF inv', where n = "length bs"])
               (use c1 hz big new in simp_all)
          then show ?thesis using Some f' t True False False' by (simp add: Let_def)
        qed
      next
        case nz: False
        have same: "nchild (bs' ! z) = nchild (bs ! z)" using grows_nchild [OF g zl nz] .
        have c1: "z < nchild (bs ! z) \<and> nchild (bs ! z) < length bs"
          using trie_inv_child [OF inv hz zl nz] by simp
        have "E (walk_history_from bs' (nchild (bs ! z)) (pre @ [x]) xs ?h1')
              = E (walk_history_from bs (nchild (bs ! z)) (pre @ [x]) xs ?h1)"
          by (rule Cons.IH) (use c1 hz t in simp_all)
        then show ?thesis using Some f' nz same False by (simp add: Let_def)
      qed
    qed
  qed
qed

lemma rules_to_apply_track:
  "rules_to_apply (track n pre x h)
     = (if has_webentity_creation_rule n then rules_to_apply h @ [pre @ [x]]
        else rules_to_apply h)"
  by (simp add: track_def update_webentity_def update_webentity_creation_rule_def)

lemma track_cong:
  "has_webentity n' = has_webentity n \<Longrightarrow> webentity n' = webentity n
   \<Longrightarrow> has_webentity_creation_rule n' = has_webentity_creation_rule n
   \<Longrightarrow> track n' pre x h = track n pre x h"
  by (simp add: track_def)

lemma track_unmarked:
  "\<not> has_webentity n \<Longrightarrow> \<not> has_webentity_creation_rule n \<Longrightarrow> track n pre x h = h"
  by (simp add: track_def)

lemma evolves_grows: "evolves bs bs' \<Longrightarrow> grows bs bs'"
  by (simp add: evolves_def)

lemma keeps_grows: "keeps bs bs' \<Longrightarrow> grows bs bs'"
  by (simp add: keeps_def)

lemma evolves_refl: "evolves bs bs"
  by (simp add: evolves_def)

lemma keeps_refl: "keeps bs bs"
  by (simp add: keeps_def)

lemma evolves_trans:
  assumes a: "evolves bs bs1" and b: "evolves bs1 bs2"
  shows "evolves bs bs2"
proof -
  have l1: "length bs \<le> length bs1" using grows_length [OF evolves_grows [OF a]] .
  have l2: "length bs1 \<le> length bs2" using grows_length [OF evolves_grows [OF b]] .
  have g: "grows bs bs2" using grows_trans [OF evolves_grows [OF a] evolves_grows [OF b]] .
  have old: "(test (nflags (bs ! y)) LRU_TRIE_NODE_FLAG_PAGE
               \<longrightarrow> test (nflags (bs2 ! y)) LRU_TRIE_NODE_FLAG_PAGE)
            \<and> (test (nflags (bs ! y)) LRU_TRIE_NODE_FLAG_WEBENTITY
               \<longrightarrow> test (nflags (bs2 ! y)) LRU_TRIE_NODE_FLAG_WEBENTITY)
            \<and> test (nflags (bs2 ! y)) LRU_TRIE_NODE_FLAG_WEBENTITY_CREATION_RULE
              = test (nflags (bs ! y)) LRU_TRIE_NODE_FLAG_WEBENTITY_CREATION_RULE"
    if "y < length bs" for y
  proof -
    have "y < length bs1" using that l1 by simp
    then show ?thesis using a b that unfolding evolves_def by simp
  qed
  have new: "\<not> test (nflags (bs2 ! y)) LRU_TRIE_NODE_FLAG_WEBENTITY_CREATION_RULE"
    if "length bs \<le> y" "y < length bs2" for y
  proof (cases "y < length bs1")
    case True
    then show ?thesis using a b that unfolding evolves_def by simp
  next
    case False
    then show ?thesis using b that unfolding evolves_def by simp
  qed
  show ?thesis unfolding evolves_def using g old new by simp
qed

lemma keeps_trans:
  assumes a: "keeps bs bs1" and b: "keeps bs1 bs2"
  shows "keeps bs bs2"
proof -
  have l1: "length bs \<le> length bs1" using grows_length [OF keeps_grows [OF a]] .
  have l2: "length bs1 \<le> length bs2" using grows_length [OF keeps_grows [OF b]] .
  have g: "grows bs bs2" using grows_trans [OF keeps_grows [OF a] keeps_grows [OF b]] .
  have old: "test (nflags (bs2 ! y)) LRU_TRIE_NODE_FLAG_WEBENTITY
              = test (nflags (bs ! y)) LRU_TRIE_NODE_FLAG_WEBENTITY
            \<and> test (nflags (bs2 ! y)) LRU_TRIE_NODE_FLAG_WEBENTITY_CREATION_RULE
              = test (nflags (bs ! y)) LRU_TRIE_NODE_FLAG_WEBENTITY_CREATION_RULE
            \<and> nwebentity (bs2 ! y) = nwebentity (bs ! y)"
    if "y < length bs" for y
  proof -
    have "y < length bs1" using that l1 by simp
    then show ?thesis using a b that unfolding keeps_def by simp
  qed
  have new: "\<not> test (nflags (bs2 ! y)) LRU_TRIE_NODE_FLAG_WEBENTITY
             \<and> \<not> test (nflags (bs2 ! y)) LRU_TRIE_NODE_FLAG_WEBENTITY_CREATION_RULE"
    if "length bs \<le> y" "y < length bs2" for y
  proof (cases "y < length bs1")
    case True
    then show ?thesis using a b that unfolding keeps_def by simp
  next
    case False
    then show ?thesis using b that unfolding keeps_def by simp
  qed
  show ?thesis unfolding keeps_def using g old new by simp
qed

lemma extends_evolves: "extends bs bs' \<Longrightarrow> evolves bs bs'"
  by (simp add: extends_def evolves_def test_zero)

lemma extends_keeps: "extends bs bs' \<Longrightarrow> keeps bs bs'"
  by (simp add: extends_def keeps_def test_zero)

lemma evolves_write_flags:
  assumes "pos \<noteq> LRU_TRIE_NODE_FLAG_WEBENTITY_CREATION_RULE"
  shows "evolves bs (write_flags bs b (flag (nflags (bs ! b)) pos) w)"
  unfolding evolves_def using assms
  by (simp add: grows_write_flags nth_write_flags test_flag)

lemma keeps_write_flags:
  "keeps bs (write_flags bs b (flag (nflags (bs ! b)) LRU_TRIE_NODE_FLAG_PAGE)
               (nwebentity (bs ! b)))"
  unfolding keeps_def
  by (simp add: grows_write_flags nth_write_flags test_flag LRU_TRIE_NODE_FLAG_PAGE_def
      LRU_TRIE_NODE_FLAG_WEBENTITY_def LRU_TRIE_NODE_FLAG_WEBENTITY_CREATION_RULE_def)

lemma history_of_rules_evolves:
  assumes inv: "trie_inv bs" and inv': "trie_inv bs'" and e: "evolves bs bs'"
  shows "rules_to_apply (history_of bs' lru) = rules_to_apply (history_of bs lru)"
proof -
  let ?H = LRU_TRIE_NODE_HEADER_BLOCKS
  note g = evolves_grows [OF e]
  have new: "rules_to_apply (track (the_node bs' b) pre x h) = rules_to_apply h"
    if "length bs \<le> b" "b < length bs'" for b pre x h
    using that e unfolding evolves_def
    by (simp add: rules_to_apply_track has_webentity_creation_rule_def the_node_def)
  have old: "rules_to_apply (track (the_node bs' b) pre x h')
               = rules_to_apply (track (the_node bs b) pre x h)"
    if "?H \<le> b" "b < length bs" "rules_to_apply h' = rules_to_apply h" for b pre x h h'
    using that e unfolding evolves_def
    by (simp add: rules_to_apply_track has_webentity_creation_rule_def the_node_def)
  show ?thesis
  proof (cases "lru \<noteq> [] \<and> ?H < length bs'")
    case False
    then have "\<not> (lru \<noteq> [] \<and> ?H < length bs)" using grows_length [OF g] by auto
    then show ?thesis using False by (auto simp: history_of_def)
  next
    case True
    show ?thesis
    proof (cases "?H < length bs")
      case p: True
      have "rules_to_apply (walk_history_from bs' ?H [] lru LRUTrieWalkHistory)
            = rules_to_apply (walk_history_from bs ?H [] lru LRUTrieWalkHistory)"
        by (rule walk_history_old [OF inv inv' g, where E = rules_to_apply])
           (use old new p in simp_all)
      then show ?thesis using True p by (simp add: history_of_def)
    next
      case a: False
      have "rules_to_apply (walk_history_from bs' ?H [] lru LRUTrieWalkHistory)
            = rules_to_apply LRUTrieWalkHistory"
        by (rule walk_history_new [OF inv', where E = rules_to_apply and n = "length bs"])
           (use new a True in simp_all)
      then show ?thesis using True a by (simp add: history_of_def)
    qed
  qed
qed

lemma history_of_keeps:
  assumes inv: "trie_inv bs" and inv': "trie_inv bs'" and e: "keeps bs bs'"
  shows "history_of bs' lru = history_of bs lru"
proof -
  let ?H = LRU_TRIE_NODE_HEADER_BLOCKS
  note g = keeps_grows [OF e]
  have new: "track (the_node bs' b) pre x h = h"
    if "length bs \<le> b" "b < length bs'" for b pre x h
    using that e unfolding keeps_def
    by (simp add: track_unmarked has_webentity_def has_webentity_creation_rule_def the_node_def)
  have old: "track (the_node bs' b) pre x h' = track (the_node bs b) pre x h"
    if "?H \<le> b" "b < length bs" "h' = h" for b pre x h h'
    unfolding that(3)
    by (rule track_cong)
       (use that e in \<open>simp_all add: keeps_def has_webentity_def webentity_def
          has_webentity_creation_rule_def the_node_def\<close>)
  show ?thesis
  proof (cases "lru \<noteq> [] \<and> ?H < length bs'")
    case False
    then have "\<not> (lru \<noteq> [] \<and> ?H < length bs)" using grows_length [OF g] by auto
    then show ?thesis using False by (auto simp: history_of_def)
  next
    case True
    show ?thesis
    proof (cases "?H < length bs")
      case p: True
      have "(\<lambda>h. h) (walk_history_from bs' ?H [] lru LRUTrieWalkHistory)
            = (\<lambda>h. h) (walk_history_from bs ?H [] lru LRUTrieWalkHistory)"
        by (rule walk_history_old [OF inv inv' g, where E = "\<lambda>h. h"])
           (use old new p in simp_all)
      then show ?thesis using True p by (simp add: history_of_def)
    next
      case a: False
      have "(\<lambda>h. h) (walk_history_from bs' ?H [] lru LRUTrieWalkHistory)
            = (\<lambda>h. h) LRUTrieWalkHistory"
        by (rule walk_history_new [OF inv', where E = "\<lambda>h. h" and n = "length bs"])
           (use new a True in simp_all)
      then show ?thesis using True a by (simp add: history_of_def)
    qed
  qed
qed

text \<open>
  \<^verbatim>\<open>add_lru\<close> and \<^verbatim>\<open>add_page\<close> of the trie on a well-formed storage, with or without a
  root block; they write nothing when the LRU is there (and is a page).
\<close>

lemma add_lru_general:
  assumes inv: "trie_inv bs" and st: "blocks st = bs"
    and ok: "lru \<noteq> [] \<or> LRU_TRIE_NODE_HEADER_BLOCKS < length bs"
  shows "\<exists>b hist st'. add_lru st lru = Some (Inr (the_node (blocks st') b, hist, st'))
         \<and> trie_inv (blocks st') \<and> extends bs (blocks st')
         \<and> LRU_TRIE_NODE_HEADER_BLOCKS \<le> b \<and> b < length (blocks st')
         \<and> lru_block (blocks st') lru = Some b
         \<and> hist = history_of bs lru
         \<and> (LRU_TRIE_NODE_HEADER_BLOCKS < length bs \<longrightarrow>
              (\<forall>b0. lru_block bs lru = Some b0 \<longrightarrow> st' = st \<and> b = b0))"
proof (cases "lru = []")
  case True
  then have root: "LRU_TRIE_NODE_HEADER_BLOCKS < length bs" using ok by simp
  have "add_lru st lru
          = Some (Inr (the_node (blocks st) LRU_TRIE_NODE_HEADER_BLOCKS, LRUTrieWalkHistory, st))"
    using True root_the_node [of st] root st by (simp add: add_lru_def)
  then show ?thesis
    using True inv st root by (auto simp: lru_block_def history_of_def)
next
  case False
  show ?thesis
  proof (cases "LRU_TRIE_NODE_HEADER_BLOCKS < length bs")
    case True
    from add_lru_spec_present [OF inv st False True]
    obtain b hist st' where a:
      "add_lru st lru = Some (Inr (the_node (blocks st') b, hist, st'))"
      "trie_inv (blocks st')" "extends bs (blocks st')"
      "LRU_TRIE_NODE_HEADER_BLOCKS \<le> b" "b < length (blocks st')"
      "resolve (blocks st') LRU_TRIE_NODE_HEADER_BLOCKS lru = Some b"
      "\<forall>b0. resolve bs LRU_TRIE_NODE_HEADER_BLOCKS lru = Some b0 \<longrightarrow> st' = st \<and> b = b0"
      "hist = walk_history_from bs LRU_TRIE_NODE_HEADER_BLOCKS [] lru LRUTrieWalkHistory"
      by blast
    have "lru_block (blocks st') lru = Some b" using a(6) False by (simp add: lru_block_def)
    moreover have "hist = history_of bs lru" using a(8) False True by (simp add: history_of_def)
    moreover have "\<forall>b0. lru_block bs lru = Some b0 \<longrightarrow> st' = st \<and> b = b0"
      using a(7) False by (simp add: lru_block_def)
    ultimately show ?thesis using a(1-5) by blast
  next
    case absent: False
    then have len: "length bs = LRU_TRIE_NODE_HEADER_BLOCKS"
      using trie_inv_length [OF inv] by simp
    from add_lru_spec_absent [OF len st False]
    obtain b hist st' where a:
      "add_lru st lru = Some (Inr (the_node (blocks st') b, hist, st'))"
      "trie_inv (blocks st')" "extends bs (blocks st')"
      "LRU_TRIE_NODE_HEADER_BLOCKS \<le> b" "b < length (blocks st')"
      "resolve (blocks st') LRU_TRIE_NODE_HEADER_BLOCKS lru = Some b"
      "hist = LRUTrieWalkHistory"
      by blast
    have "lru_block (blocks st') lru = Some b" using a(6) False by (simp add: lru_block_def)
    moreover have "hist = history_of bs lru" using a(7) absent by (simp add: history_of_def)
    ultimately show ?thesis using a(1-5) absent by blast
  qed
qed

lemma page_was_created_history_of: "page_was_created (history_of bs lru) = False"
  by (simp add: history_of_def walk_history_page_was_created)

lemma add_page_spec:
  assumes inv: "trie_inv bs" and st: "blocks st = bs"
  shows "\<exists>b h st'. add_page st lru = Some (Inr (the_node (blocks st') b, h, st'))
         \<and> trie_inv (blocks st')
         \<and> LRU_TRIE_NODE_HEADER_BLOCKS \<le> b \<and> b < length (blocks st')
         \<and> lru_block (blocks st') lru = Some b
         \<and> test (nflags (blocks st' ! b)) LRU_TRIE_NODE_FLAG_PAGE
         \<and> keeps bs (blocks st') \<and> evolves bs (blocks st')
         \<and> rules_to_apply h = rules_to_apply (history_of bs lru)
         \<and> webentity_position h = webentity_position (history_of bs lru)
         \<and> (LRU_TRIE_NODE_HEADER_BLOCKS < length bs \<longrightarrow>
              (\<forall>b0. lru_block bs lru = Some b0
                    \<and> test (nflags (bs ! b0)) LRU_TRIE_NODE_FLAG_PAGE
                 \<longrightarrow> st' = st \<and> b = b0 \<and> \<not> page_was_created h))"
proof (cases "lru \<noteq> [] \<or> LRU_TRIE_NODE_HEADER_BLOCKS < length bs")
  case True
  from add_lru_general [OF inv st True]
  obtain b hist st1 where a:
    "add_lru st lru = Some (Inr (the_node (blocks st1) b, hist, st1))"
    "trie_inv (blocks st1)" "extends bs (blocks st1)"
    "LRU_TRIE_NODE_HEADER_BLOCKS \<le> b" "b < length (blocks st1)"
    "lru_block (blocks st1) lru = Some b"
    "hist = history_of bs lru"
    "LRU_TRIE_NODE_HEADER_BLOCKS < length bs \<longrightarrow>
       (\<forall>b0. lru_block bs lru = Some b0 \<longrightarrow> st1 = st \<and> b = b0)"
    by blast
  let ?bs1 = "blocks st1"
  note ap = add_page_after_add_lru [OF a(1) refl a(5)]
  show ?thesis
  proof (cases "test (nflags (?bs1 ! b)) LRU_TRIE_NODE_FLAG_PAGE")
    case page: True
    have code: "add_page st lru = Some (Inr (the_node ?bs1 b, hist, st1))"
      using ap page by simp
    have "keeps bs ?bs1" "evolves bs ?bs1"
      using extends_keeps [OF a(3)] extends_evolves [OF a(3)] by simp_all
    moreover have "\<not> page_was_created hist"
      using a(7) by (simp add: page_was_created_history_of)
    ultimately show ?thesis
      using code a(2,4,5,6,7,8) page by (intro exI [of _ b] exI [of _ hist] exI [of _ st1]) auto
  next
    case nopage: False
    let ?bs2 = "write_flags ?bs1 b (flag (nflags (?bs1 ! b)) LRU_TRIE_NODE_FLAG_PAGE)
                  (nwebentity (?bs1 ! b))"
    let ?st2 = "st1\<lparr>blocks := ?bs2, trace := trace st1 @ [?bs2]\<rparr>"
    let ?h = "hist\<lparr>page_was_created := True\<rparr>"
    have code: "add_page st lru = Some (Inr (the_node (blocks ?st2) b, ?h, ?st2))"
      using ap nopage by (simp add: Let_def)
    have inv2: "trie_inv (blocks ?st2)" using trie_inv_write_flags [OF a(2)] by simp
    have len2: "b < length (blocks ?st2)" using a(5) by simp
    have g2: "grows ?bs1 ?bs2" by (rule grows_write_flags)
    have hl: "lru \<noteq> [] \<Longrightarrow> LRU_TRIE_NODE_HEADER_BLOCKS < length ?bs1"
      using a(4,5) by simp
    have blk: "lru_block (blocks ?st2) lru = Some b"
    proof (cases "lru = []")
      case True
      then show ?thesis using a(6) by (simp add: lru_block_def)
    next
      case False
      have h1: "LRU_TRIE_NODE_HEADER_BLOCKS < length ?bs1" using a(4,5) by simp
      have "resolve ?bs1 LRU_TRIE_NODE_HEADER_BLOCKS lru = Some b"
        using a(6) False by (simp add: lru_block_def)
      from resolve_grows [OF a(2) order_refl h1 _ g2 this] trie_inv_write_flags [OF a(2)]
      show ?thesis using False by (simp add: lru_block_def)
    qed
    have pg: "test (nflags (blocks ?st2 ! b)) LRU_TRIE_NODE_FLAG_PAGE"
      using a(5) by (simp add: nth_write_flags test_flag)
    have k: "keeps bs (blocks ?st2)"
      using keeps_trans [OF extends_keeps [OF a(3)] keeps_write_flags [of ?bs1 b]] by simp
    have e: "evolves bs (blocks ?st2)"
      using evolves_trans [OF extends_evolves [OF a(3)]
          evolves_write_flags [of LRU_TRIE_NODE_FLAG_PAGE ?bs1 b "nwebentity (?bs1 ! b)"]]
      by (simp add: LRU_TRIE_NODE_FLAG_PAGE_def LRU_TRIE_NODE_FLAG_WEBENTITY_CREATION_RULE_def)
    have noop: "LRU_TRIE_NODE_HEADER_BLOCKS < length bs \<longrightarrow>
              (\<forall>b0. lru_block bs lru = Some b0
                    \<and> test (nflags (bs ! b0)) LRU_TRIE_NODE_FLAG_PAGE
                 \<longrightarrow> ?st2 = st \<and> b = b0 \<and> \<not> page_was_created ?h)"
    proof (intro impI allI, elim conjE)
      fix b0
      assume r: "LRU_TRIE_NODE_HEADER_BLOCKS < length bs" and l: "lru_block bs lru = Some b0"
        and p: "test (nflags (bs ! b0)) LRU_TRIE_NODE_FLAG_PAGE"
      from a(8) r l have "st1 = st" "b = b0" by simp_all
      then have False using nopage p st by simp
      then show "?st2 = st \<and> b = b0 \<and> \<not> page_was_created ?h" ..
    qed
    have hr: "rules_to_apply ?h = rules_to_apply (history_of bs lru)"
      "webentity_position ?h = webentity_position (history_of bs lru)"
      using a(7) by simp_all
    show ?thesis
      apply (rule exI [of _ b], rule exI [of _ ?h], rule exI [of _ ?st2])
      apply (intro conjI)
      using code inv2 a(4) len2 blk pg k e hr noop by blast+
  qed
next
  case False
  then have lru: "lru = []" and len: "length bs = LRU_TRIE_NODE_HEADER_BLOCKS"
    using trie_inv_length [OF inv] by auto
  let ?d = "(set_default_data None)\<lparr>nflags := flag 0 LRU_TRIE_NODE_FLAG_PAGE\<rparr>"
  let ?bs2 = "bs @ [?d]"
  let ?st2 = "st\<lparr>blocks := ?bs2, trace := trace st @ [?bs2]\<rparr>"
  let ?h = "LRUTrieWalkHistory\<lparr>page_was_created := True\<rparr>"
  have rt: "root st = new_node None" using root_absent [of st] len st by simp
  have code: "add_page st lru = Some (Inr (the_node (blocks ?st2) (length bs), ?h, ?st2))"
    using lru rt st
    by (simp add: add_page_def add_lru_def is_page_def new_node_def set_default_data_def
        test_zero flag_as_page_def node_write_new the_node_def)
  have inv2: "trie_inv (blocks ?st2)"
    using trie_inv_first [OF len, of ?d] by (simp add: set_default_data_def)
  have blk: "lru_block (blocks ?st2) lru = Some (length bs)"
    using lru len by (simp add: lru_block_def)
  have pg: "test (nflags (blocks ?st2 ! length bs)) LRU_TRIE_NODE_FLAG_PAGE"
    by (simp add: test_flag)
  have g: "grows bs ?bs2" by (rule growsI) (simp_all add: nth_append)
  have k: "keeps bs (blocks ?st2)"
    unfolding keeps_def using g
    by (simp add: nth_append test_flag test_zero less_Suc_eq LRU_TRIE_NODE_FLAG_PAGE_def
        LRU_TRIE_NODE_FLAG_WEBENTITY_def LRU_TRIE_NODE_FLAG_WEBENTITY_CREATION_RULE_def)
  have e: "evolves bs (blocks ?st2)"
    unfolding evolves_def using g
    by (simp add: nth_append test_flag test_zero less_Suc_eq LRU_TRIE_NODE_FLAG_PAGE_def
        LRU_TRIE_NODE_FLAG_WEBENTITY_def LRU_TRIE_NODE_FLAG_WEBENTITY_CREATION_RULE_def)
  have hr: "rules_to_apply ?h = rules_to_apply (history_of bs lru)"
      "webentity_position ?h = webentity_position (history_of bs lru)"
    using lru by (simp_all add: history_of_def)
  have rng: "LRU_TRIE_NODE_HEADER_BLOCKS \<le> length bs" "length bs < length (blocks ?st2)"
    using len by simp_all
  have noop: "LRU_TRIE_NODE_HEADER_BLOCKS < length bs \<longrightarrow>
              (\<forall>b0. lru_block bs lru = Some b0
                    \<and> test (nflags (bs ! b0)) LRU_TRIE_NODE_FLAG_PAGE
                 \<longrightarrow> ?st2 = st \<and> length bs = b0 \<and> \<not> page_was_created ?h)"
    using len by simp
  show ?thesis
    apply (rule exI [of _ "length bs"], rule exI [of _ ?h], rule exI [of _ ?st2])
    apply (intro conjI)
    using code inv2 rng blk pg k e hr noop by blast+
qed

text \<open>
  The loop of \<^verbatim>\<open>__add_prefixes\<close> leaves every prefix in the trie, flagged; on prefixes
  that are there and flagged it changes webentity ids only.
\<close>

lemma lru_block_grows:
  assumes "trie_inv bs" "trie_inv bs'" "grows bs bs'"
    and "LRU_TRIE_NODE_HEADER_BLOCKS < length bs" "lru_block bs lru = Some b"
  shows "lru_block bs' lru = Some b"
proof (cases "lru = []")
  case True
  then show ?thesis using assms(5) by (simp add: lru_block_def)
next
  case False
  then have "resolve bs LRU_TRIE_NODE_HEADER_BLOCKS lru = Some b"
    using assms(5) by (simp add: lru_block_def)
  from resolve_grows [OF assms(1) order_refl assms(4) assms(2,3) this]
  show ?thesis using False by (simp add: lru_block_def)
qed

lemma marked_evolves:
  assumes "trie_inv bs" "trie_inv bs'" "evolves bs bs'"
    and "LRU_TRIE_NODE_HEADER_BLOCKS < length bs" "marked bs lru"
  shows "marked bs' lru"
proof -
  from assms(5) obtain b where b: "lru_block bs lru = Some b" "b < length bs"
    "test (nflags (bs ! b)) LRU_TRIE_NODE_FLAG_WEBENTITY"
    by (auto simp: marked_def split: option.splits)
  note g = evolves_grows [OF assms(3)]
  have "lru_block bs' lru = Some b" using lru_block_grows [OF assms(1,2) g assms(4) b(1)] .
  moreover have "b < length bs'" using b(2) grows_length [OF g] by simp
  moreover have "test (nflags (bs' ! b)) LRU_TRIE_NODE_FLAG_WEBENTITY"
    using assms(3) b(2,3) unfolding evolves_def by simp
  ultimately show ?thesis by (simp add: marked_def)
qed

lemma same_shape_refl: "same_shape bs bs"
  by (simp add: same_shape_def)

lemma same_shape_trans: "same_shape bs bs1 \<Longrightarrow> same_shape bs1 bs2 \<Longrightarrow> same_shape bs bs2"
  by (simp add: same_shape_def)

lemma same_shape_write_flags: "same_shape bs (write_flags bs b (nflags (bs ! b)) w)"
  by (simp add: same_shape_def nth_write_flags)

lemma add_prefixes_loop_Cons:
  assumes inv: "trie_inv bs" and st: "blocks st = bs"
    and root: "LRU_TRIE_NODE_HEADER_BLOCKS < length bs"
  shows "\<exists>b st1. add_prefixes_loop w st (p # ps)
           = add_prefixes_loop w
               (st1\<lparr>blocks := write_flags (blocks st1) b
                                (flag (nflags (blocks st1 ! b)) LRU_TRIE_NODE_FLAG_WEBENTITY) w,
                    trace := trace st1 @
                               [write_flags (blocks st1) b
                                  (flag (nflags (blocks st1 ! b)) LRU_TRIE_NODE_FLAG_WEBENTITY) w]\<rparr>)
               ps
         \<and> trie_inv (blocks st1) \<and> extends bs (blocks st1)
         \<and> LRU_TRIE_NODE_HEADER_BLOCKS \<le> b \<and> b < length (blocks st1)
         \<and> lru_block (blocks st1) p = Some b
         \<and> (\<forall>b0. lru_block bs p = Some b0 \<longrightarrow> st1 = st \<and> b = b0)"
proof -
  from add_lru_general [OF inv st, of p] root
  obtain b hist st1 where a:
    "add_lru st p = Some (Inr (the_node (blocks st1) b, hist, st1))"
    "trie_inv (blocks st1)" "extends bs (blocks st1)"
    "LRU_TRIE_NODE_HEADER_BLOCKS \<le> b" "b < length (blocks st1)"
    "lru_block (blocks st1) p = Some b"
    "\<forall>b0. lru_block bs p = Some b0 \<longrightarrow> st1 = st \<and> b = b0"
    by blast
  have "add_prefixes_loop w st (p # ps)
           = add_prefixes_loop w
               (st1\<lparr>blocks := write_flags (blocks st1) b
                                (flag (nflags (blocks st1 ! b)) LRU_TRIE_NODE_FLAG_WEBENTITY) w,
                    trace := trace st1 @
                               [write_flags (blocks st1) b
                                  (flag (nflags (blocks st1 ! b)) LRU_TRIE_NODE_FLAG_WEBENTITY) w]\<rparr>)
               ps"
    using a(1)
    by (simp add: node_write_old set_webentity_def the_node_def write_flags_def)
  then show ?thesis using a(2-7) by blast
qed

lemma add_prefixes_loop_marks:
  "trie_inv (blocks st) \<Longrightarrow> LRU_TRIE_NODE_HEADER_BLOCKS < length (blocks st)
   \<Longrightarrow> \<exists>st'. add_prefixes_loop w st ps = Some (Inr st')
         \<and> trie_inv (blocks st') \<and> evolves (blocks st) (blocks st')
         \<and> (\<forall>p \<in> set ps. marked (blocks st') p)"
proof (induction ps arbitrary: st)
  case Nil
  then show ?case by (simp add: evolves_refl)
next
  case (Cons p ps)
  let ?bs = "blocks st"
  from add_prefixes_loop_Cons [OF Cons.prems(1) refl Cons.prems(2), of w p ps]
  obtain b st1 where a:
    "add_prefixes_loop w st (p # ps)
       = add_prefixes_loop w
           (st1\<lparr>blocks := write_flags (blocks st1) b
                            (flag (nflags (blocks st1 ! b)) LRU_TRIE_NODE_FLAG_WEBENTITY) w,
                trace := trace st1 @
                           [write_flags (blocks st1) b
                              (flag (nflags (blocks st1 ! b)) LRU_TRIE_NODE_FLAG_WEBENTITY) w]\<rparr>)
           ps"
    "trie_inv (blocks st1)" "extends ?bs (blocks st1)"
    "LRU_TRIE_NODE_HEADER_BLOCKS \<le> b" "b < length (blocks st1)"
    "lru_block (blocks st1) p = Some b"
    by blast
  let ?bs2 = "write_flags (blocks st1) b
                (flag (nflags (blocks st1 ! b)) LRU_TRIE_NODE_FLAG_WEBENTITY) w"
  let ?st2 = "st1\<lparr>blocks := ?bs2, trace := trace st1 @ [?bs2]\<rparr>"
  have inv2: "trie_inv (blocks ?st2)" using trie_inv_write_flags [OF a(2)] by simp
  have root1: "LRU_TRIE_NODE_HEADER_BLOCKS < length (blocks st1)" using a(4,5) by simp
  have root2: "LRU_TRIE_NODE_HEADER_BLOCKS < length (blocks ?st2)" using root1 by simp
  have e12: "evolves (blocks st1) ?bs2"
    by (rule evolves_write_flags)
       (simp add: LRU_TRIE_NODE_FLAG_WEBENTITY_def LRU_TRIE_NODE_FLAG_WEBENTITY_CREATION_RULE_def)
  have e02: "evolves ?bs (blocks ?st2)"
    using evolves_trans [OF extends_evolves [OF a(3)] e12] by simp
  have blk2: "lru_block ?bs2 p = Some b"
    using lru_block_grows [OF a(2) _ grows_write_flags root1 a(6)] trie_inv_write_flags [OF a(2)]
    by simp
  have m2: "marked (blocks ?st2) p"
    using blk2 a(5) by (simp add: marked_def nth_write_flags test_flag)
  from Cons.IH [OF inv2 root2] obtain st' where r:
    "add_prefixes_loop w ?st2 ps = Some (Inr st')"
    "trie_inv (blocks st')" "evolves (blocks ?st2) (blocks st')"
    "\<forall>p \<in> set ps. marked (blocks st') p"
    by blast
  have "marked (blocks st') p" using marked_evolves [OF inv2 r(2,3) root2 m2] .
  moreover have "evolves ?bs (blocks st')" using evolves_trans [OF e02 r(3)] .
  ultimately show ?case using a(1) r(1,2,4) by simp
qed

lemma add_prefixes_loop_marked:
  "trie_inv (blocks st) \<Longrightarrow> LRU_TRIE_NODE_HEADER_BLOCKS < length (blocks st)
   \<Longrightarrow> \<forall>p \<in> set ps. marked (blocks st) p
   \<Longrightarrow> \<exists>st'. add_prefixes_loop w st ps = Some (Inr st')
         \<and> same_shape (blocks st) (blocks st')"
proof (induction ps arbitrary: st)
  case Nil
  then show ?case by (simp add: same_shape_refl)
next
  case (Cons p ps)
  let ?bs = "blocks st"
  from Cons.prems(3) obtain b0 where m: "lru_block ?bs p = Some b0" "b0 < length ?bs"
    "test (nflags (?bs ! b0)) LRU_TRIE_NODE_FLAG_WEBENTITY"
    by (auto simp: marked_def split: option.splits)
  from add_prefixes_loop_Cons [OF Cons.prems(1) refl Cons.prems(2), of w p ps]
  obtain b st1 where a:
    "add_prefixes_loop w st (p # ps)
       = add_prefixes_loop w
           (st1\<lparr>blocks := write_flags (blocks st1) b
                            (flag (nflags (blocks st1 ! b)) LRU_TRIE_NODE_FLAG_WEBENTITY) w,
                trace := trace st1 @
                           [write_flags (blocks st1) b
                              (flag (nflags (blocks st1 ! b)) LRU_TRIE_NODE_FLAG_WEBENTITY) w]\<rparr>)
           ps"
    "\<forall>b0. lru_block ?bs p = Some b0 \<longrightarrow> st1 = st \<and> b = b0"
    by blast
  from a(2) m(1) have eq: "st1 = st" "b = b0" by simp_all
  have fl: "flag (nflags (?bs ! b0)) LRU_TRIE_NODE_FLAG_WEBENTITY = nflags (?bs ! b0)"
    using flag_idem [OF m(3)] .
  let ?bs2 = "write_flags ?bs b0 (nflags (?bs ! b0)) w"
  let ?st2 = "st\<lparr>blocks := ?bs2, trace := trace st @ [?bs2]\<rparr>"
  have code: "add_prefixes_loop w st (p # ps) = add_prefixes_loop w ?st2 ps"
    using a(1) eq fl by simp
  have inv2: "trie_inv (blocks ?st2)" using trie_inv_write_flags [OF Cons.prems(1)] by simp
  have root2: "LRU_TRIE_NODE_HEADER_BLOCKS < length (blocks ?st2)" using Cons.prems(2) by simp
  have e: "evolves ?bs (blocks ?st2)"
    using evolves_write_flags [of LRU_TRIE_NODE_FLAG_WEBENTITY ?bs b0 w] fl
    by (simp add: LRU_TRIE_NODE_FLAG_WEBENTITY_def LRU_TRIE_NODE_FLAG_WEBENTITY_CREATION_RULE_def)
  have "\<forall>p \<in> set ps. marked (blocks ?st2) p"
    using marked_evolves [OF Cons.prems(1) inv2 e Cons.prems(2)] Cons.prems(3) by simp
  from Cons.IH [OF inv2 root2 this] obtain st' where r:
    "add_prefixes_loop w ?st2 ps = Some (Inr st')" "same_shape (blocks ?st2) (blocks st')"
    by blast
  have "same_shape ?bs (blocks st')"
    using same_shape_trans [OF same_shape_write_flags [of ?bs b0 w]] r(2) by simp
  then show ?case using code r(1) by simp
qed

lemma same_shape_maps:
  assumes "same_shape bs bs'"
  shows "length bs' = length bs \<and> map nflags bs' = map nflags bs
         \<and> map nchar bs' = map nchar bs \<and> map nnext bs' = map nnext bs
         \<and> map nchild bs' = map nchild bs \<and> map nparent bs' = map nparent bs"
proof -
  have len: "length bs' = length bs" using assms by (simp add: same_shape_def)
  have "map f bs' = map f bs"
    if "\<And>y. y < length bs \<Longrightarrow> f (bs' ! y) = f (bs ! y)" for f :: "node_data \<Rightarrow> nat"
    by (rule nth_equalityI) (use len that in simp_all)
  then show ?thesis using assms len unfolding same_shape_def by simp
qed

lemma traph__add_page_again:
  assumes inv: "trie_inv bs1" and st: "blocks (lru_trie_storage t1) = bs1"
    and rng: "LRU_TRIE_NODE_HEADER_BLOCKS \<le> b" "b < length bs1"
    and blk: "lru_block bs1 lru = Some b"
    and pg: "test (nflags (bs1 ! b)) LRU_TRIE_NODE_FLAG_PAGE"
    and loop: "longest_candidate_prefix_loop t1 (rules_to_apply (history_of bs1 lru)) lru []
                 = Inr c"
    and fb: "\<not> (c \<noteq> [] \<and> int (length c) \<le> webentity_position (history_of bs1 lru) + 1)
             \<Longrightarrow> \<exists>ps. lru_variations
                          (if c \<noteq> [] then Some c else default_webentity_creation_rule t1 lru)
                        = Inr ps
                      \<and> (\<forall>p \<in> set ps. marked bs1 p)"
  shows "\<exists>node2 report2 t2.
           traph__add_page lru_variations t1 lru = Some (Inr (node2, report2, t2))
           \<and> same_shape bs1 (blocks (lru_trie_storage t2))
           \<and> links_store_storage t2 = links_store_storage t1
           \<and> nb_created_pages report2 = 0
           \<and> (\<exists>n h. add_page (lru_trie_storage t1) lru = Some (Inr (n, h, lru_trie_storage t1))
                    \<and> \<not> page_was_created h)"
proof -
  let ?st1 = "lru_trie_storage t1"
  have root: "LRU_TRIE_NODE_HEADER_BLOCKS < length bs1" using rng by simp
  from add_page_spec [OF inv st, of lru] root blk pg
  obtain h where a:
    "add_page ?st1 lru = Some (Inr (the_node bs1 b, h, ?st1))"
    "rules_to_apply h = rules_to_apply (history_of bs1 lru)"
    "webentity_position h = webentity_position (history_of bs1 lru)"
    "\<not> page_was_created h"
    using st by blast
  let ?t = "t1\<lparr>lru_trie_storage := ?st1, added_pages := added_pages t1 @ [lru]\<rparr>"
  have loop': "longest_candidate_prefix_loop ?t (rules_to_apply h) lru [] = Inr c"
    using loop a(2) longest_candidate_prefix_loop_cong [of ?t t1] by simp
  have trie: "\<exists>n h. add_page ?st1 lru = Some (Inr (n, h, ?st1)) \<and> \<not> page_was_created h"
    using a(1,4) by blast
  show ?thesis
  proof (cases "c \<noteq> [] \<and> int (length c) \<le> webentity_position (history_of bs1 lru) + 1")
    case True
    have "traph__add_page lru_variations t1 lru
            = Some (Inr (the_node bs1 b, TraphWriteReport, ?t))"
      using a(1,3) loop' True by (simp add: traph__add_page_def Let_def)
    moreover have "same_shape bs1 (blocks (lru_trie_storage ?t))"
      using st by (simp add: same_shape_refl)
    moreover have "nb_created_pages TraphWriteReport = 0" by (simp add: TraphWriteReport_def)
    ultimately show ?thesis using trie by auto
  next
    case False
    let ?P = "if c \<noteq> [] then Some c else default_webentity_creation_rule t1 lru"
    from fb [OF False] obtain ps where ps: "lru_variations ?P = Inr ps"
      "\<forall>p \<in> set ps. marked bs1 p" by blast
    have code: "traph__add_page lru_variations t1 lru
            = create_webentity_for lru_variations ?t (the_node bs1 b) TraphWriteReport ?P"
      using a(1,3) loop' False
      by (auto simp: traph__add_page_def Let_def traph__apply_webentity_default_creation_rule_def)
    let ?w = "last_webentity_id t1 + 1"
    from add_prefixes_loop_marked [of ?st1 ps ?w] inv st root ps(2)
    obtain st2 where l: "add_prefixes_loop ?w ?st1 ps = Some (Inr st2)"
      "same_shape bs1 (blocks st2)"
      by auto
    let ?t2 = "?t\<lparr>last_webentity_id := ?w, lru_trie_storage := st2\<rparr>"
    let ?r2 = "TraphWriteReport\<lparr>created_webentities :=
                 (created_webentities TraphWriteReport)(?w \<mapsto> ps)\<rparr>"
    have "create_webentity_for lru_variations ?t (the_node bs1 b) TraphWriteReport ?P
            = Some (Inr (the_node bs1 b, ?r2, ?t2))"
      using ps(1) l(1)
      by (simp add: create_webentity_for_def expand_prefix_def traph__add_prefixes_def
          traph__generated_web_entity_id_def)
    then have "traph__add_page lru_variations t1 lru = Some (Inr (the_node bs1 b, ?r2, ?t2))"
      using code by simp
    moreover have "same_shape bs1 (blocks (lru_trie_storage ?t2))" using l(2) by simp
    moreover have "nb_created_pages ?r2 = 0" by (simp add: TraphWriteReport_def)
    moreover have "links_store_storage ?t2 = links_store_storage t1" by simp
    ultimately show ?thesis using trie by blast
  qed
qed

lemma traph__add_page_twice:
  assumes inv: "trie_inv (blocks (lru_trie_storage t))"
    and first: "traph__add_page lru_variations t lru = Some (Inr (node, report, t1))"
  shows "\<exists>node2 report2 t2.
           traph__add_page lru_variations t1 lru = Some (Inr (node2, report2, t2))
           \<and> same_shape (blocks (lru_trie_storage t1)) (blocks (lru_trie_storage t2))
           \<and> links_store_storage t2 = links_store_storage t1
           \<and> nb_created_pages report2 = 0
           \<and> (\<exists>n h. add_page (lru_trie_storage t1) lru = Some (Inr (n, h, lru_trie_storage t1))
                    \<and> \<not> page_was_created h)"
proof -
  let ?bs = "blocks (lru_trie_storage t)"
  from add_page_spec [OF inv refl, of lru]
  obtain b h sta where a:
    "add_page (lru_trie_storage t) lru = Some (Inr (the_node (blocks sta) b, h, sta))"
    "trie_inv (blocks sta)"
    "LRU_TRIE_NODE_HEADER_BLOCKS \<le> b" "b < length (blocks sta)"
    "lru_block (blocks sta) lru = Some b"
    "test (nflags (blocks sta ! b)) LRU_TRIE_NODE_FLAG_PAGE"
    "keeps ?bs (blocks sta)" "evolves ?bs (blocks sta)"
    "rules_to_apply h = rules_to_apply (history_of ?bs lru)"
    "webentity_position h = webentity_position (history_of ?bs lru)"
    by blast
  let ?ta = "t\<lparr>lru_trie_storage := sta, added_pages := added_pages t @ [lru]\<rparr>"
  let ?n = "the_node (blocks sta) b"
  from first a(1) obtain c where loop1:
    "longest_candidate_prefix_loop ?ta (rules_to_apply h) lru [] = Inr c"
    by (auto simp: traph__add_page_def Let_def split: sum.splits)
  have loopt: "longest_candidate_prefix_loop t (rules_to_apply (history_of ?bs lru)) lru []
                 = Inr c"
    using loop1 a(9) longest_candidate_prefix_loop_cong [of ?ta t] by simp
  have roota: "LRU_TRIE_NODE_HEADER_BLOCKS < length (blocks sta)" using a(3,4) by simp
  show ?thesis
  proof (cases "c \<noteq> [] \<and> int (length c) \<le> webentity_position h + 1")
    case True
    have t1: "t1 = ?ta"
      using first a(1) loop1 True by (simp add: traph__add_page_def Let_def)
    have hk: "history_of (blocks sta) lru = history_of ?bs lru"
      using history_of_keeps [OF inv a(2,7)] .
    have sta: "blocks (lru_trie_storage t1) = blocks sta" using t1 by simp
    have "\<exists>node2 report2 t2.
           traph__add_page lru_variations t1 lru = Some (Inr (node2, report2, t2))
           \<and> same_shape (blocks sta) (blocks (lru_trie_storage t2))
           \<and> links_store_storage t2 = links_store_storage t1
           \<and> nb_created_pages report2 = 0
           \<and> (\<exists>n h. add_page (lru_trie_storage t1) lru = Some (Inr (n, h, lru_trie_storage t1))
                    \<and> \<not> page_was_created h)"
    proof (rule traph__add_page_again [OF a(2) sta a(3,4,5,6)])
      show "longest_candidate_prefix_loop t1 (rules_to_apply (history_of (blocks sta) lru)) lru []
              = Inr c"
        using loopt hk longest_candidate_prefix_loop_cong [of t1 t] t1 by simp
      show "\<exists>ps. lru_variations
                   (if c \<noteq> [] then Some c else default_webentity_creation_rule t1 lru) = Inr ps
               \<and> (\<forall>p \<in> set ps. marked (blocks sta) p)"
        if "\<not> (c \<noteq> [] \<and> int (length c) \<le> webentity_position (history_of (blocks sta) lru) + 1)"
        using that True hk a(10) by simp
    qed
    then show ?thesis using sta by simp
  next
    case False
    let ?P = "if c \<noteq> [] then Some c else default_webentity_creation_rule t lru"
    have cr: "create_webentity_for lru_variations ?ta ?n TraphWriteReport ?P
                = Some (Inr (node, report, t1))"
      using first a(1) loop1 False
      by (auto simp: traph__add_page_def Let_def traph__apply_webentity_default_creation_rule_def
          split: if_splits)
    from cr obtain ps where ps: "lru_variations ?P = Inr ps"
      by (auto simp: create_webentity_for_def expand_prefix_def split: sum.splits)
    let ?w = "last_webentity_id t + 1"
    from add_prefixes_loop_marks [OF a(2) roota, of ?w ps]
    obtain st1 where l: "add_prefixes_loop ?w sta ps = Some (Inr st1)"
      "trie_inv (blocks st1)" "evolves (blocks sta) (blocks st1)"
      "\<forall>p \<in> set ps. marked (blocks st1) p"
      by blast
    have t1: "t1 = ?ta\<lparr>last_webentity_id := ?w, lru_trie_storage := st1\<rparr>"
      using cr ps l(1)
      by (simp add: create_webentity_for_def expand_prefix_def traph__add_prefixes_def
          traph__generated_web_entity_id_def)
    note g = evolves_grows [OF l(3)]
    have b1: "b < length (blocks st1)" using a(4) grows_length [OF g] by simp
    have blk1: "lru_block (blocks st1) lru = Some b"
      using lru_block_grows [OF a(2) l(2) g roota a(5)] .
    have pg1: "test (nflags (blocks st1 ! b)) LRU_TRIE_NODE_FLAG_PAGE"
      using l(3) a(4,6) unfolding evolves_def by simp
    have e: "evolves ?bs (blocks st1)" using evolves_trans [OF a(8) l(3)] .
    have hr: "rules_to_apply (history_of (blocks st1) lru) = rules_to_apply (history_of ?bs lru)"
      using history_of_rules_evolves [OF inv l(2) e] .
    have st1: "blocks (lru_trie_storage t1) = blocks st1" using t1 by simp
    have "\<exists>node2 report2 t2.
           traph__add_page lru_variations t1 lru = Some (Inr (node2, report2, t2))
           \<and> same_shape (blocks st1) (blocks (lru_trie_storage t2))
           \<and> links_store_storage t2 = links_store_storage t1
           \<and> nb_created_pages report2 = 0
           \<and> (\<exists>n h. add_page (lru_trie_storage t1) lru = Some (Inr (n, h, lru_trie_storage t1))
                    \<and> \<not> page_was_created h)"
    proof (rule traph__add_page_again [OF l(2) st1 a(3) b1 blk1 pg1])
      show "longest_candidate_prefix_loop t1 (rules_to_apply (history_of (blocks st1) lru)) lru []
              = Inr c"
        using loopt hr longest_candidate_prefix_loop_cong [of t1 t] t1 by simp
      show "\<exists>ps. lru_variations
                   (if c \<noteq> [] then Some c else default_webentity_creation_rule t1 lru) = Inr ps
               \<and> (\<forall>p \<in> set ps. marked (blocks st1) p)"
        using ps l(4) t1 by (cases "c = []") auto
    qed
    then show ?thesis using st1 by simp
  qed
qed

text \<open>
  Claim C2: \<^verbatim>\<open>add_page(x)\<close> followed by \<^verbatim>\<open>add_page(x)\<close>, on a well-formed trie storage.
  When the first call returns, the second returns too, and it leaves the structural
  state as the first call left it: the same number of blocks in the trie store and
  the same link store, the same flags (and the same chars and pointers) in every
  block; its report records no page created. Inside the second call \<^verbatim>\<open>add_page\<close> of
  the trie finds the page, writes nothing and does not set \<open>page_was_created\<close>.
  The second call may still allocate a webentity id and write it into the nodes of the
  prefixes, which the first call had created and flagged.
\<close>

theorem add_page_twice_same_structure:
  assumes "trie_inv (blocks (lru_trie_storage t))"
    and "traph_add_page lru_variations t lru = Some (Inr (report, t1))"
  shows "\<exists>report2 t2.
           traph_add_page lru_variations t1 lru = Some (Inr (report2, t2))
           \<and> length (blocks (lru_trie_storage t2)) = length (blocks (lru_trie_storage t1))
           \<and> links_store_storage t2 = links_store_storage t1
           \<and> map nflags (blocks (lru_trie_storage t2)) = map nflags (blocks (lru_trie_storage t1))
           \<and> map nchar (blocks (lru_trie_storage t2)) = map nchar (blocks (lru_trie_storage t1))
           \<and> map nnext (blocks (lru_trie_storage t2)) = map nnext (blocks (lru_trie_storage t1))
           \<and> map nchild (blocks (lru_trie_storage t2)) = map nchild (blocks (lru_trie_storage t1))
           \<and> map nparent (blocks (lru_trie_storage t2))
               = map nparent (blocks (lru_trie_storage t1))
           \<and> nb_created_pages report2 = 0
           \<and> (\<exists>n h. add_page (lru_trie_storage t1) lru = Some (Inr (n, h, lru_trie_storage t1))
                    \<and> \<not> page_was_created h)"
proof -
  from assms(2) obtain node where first:
    "traph__add_page lru_variations t lru = Some (Inr (node, report, t1))"
    by (auto simp: traph_add_page_def split: option.splits sum.splits)
  from traph__add_page_twice [OF assms(1) first]
  obtain node2 report2 t2 where s:
    "traph__add_page lru_variations t1 lru = Some (Inr (node2, report2, t2))"
    "same_shape (blocks (lru_trie_storage t1)) (blocks (lru_trie_storage t2))"
    "links_store_storage t2 = links_store_storage t1"
    "nb_created_pages report2 = 0"
    "\<exists>n h. add_page (lru_trie_storage t1) lru = Some (Inr (n, h, lru_trie_storage t1))
           \<and> \<not> page_was_created h"
    by blast
  have "traph_add_page lru_variations t1 lru = Some (Inr (report2, t2))"
    using s(1) by (simp add: traph_add_page_def)
  then show ?thesis using same_shape_maps [OF s(2)] s(3,4,5) by blast
qed

theorem add_page_twice_witness:
  "trie_inv (blocks (lru_trie_storage (Traph match_all)))
   \<and> (\<exists>report t1 report2 t2.
         traph_add_page single_variation (Traph match_all) ''a'' = Some (Inr (report, t1))
         \<and> traph_add_page single_variation t1 ''a'' = Some (Inr (report2, t2))
         \<and> length (blocks (lru_trie_storage t2)) = length (blocks (lru_trie_storage t1))
         \<and> links_store_storage t2 = links_store_storage t1
         \<and> map nflags (blocks (lru_trie_storage t2)) = map nflags (blocks (lru_trie_storage t1))
         \<and> nb_created_pages report2 = 0)"
proof -
  have i: "trie_inv (blocks (lru_trie_storage (Traph match_all)))"
    using trie_inv_empty_trie by (simp add: Traph_def)
  have "\<exists>report t1.
          traph_add_page single_variation (Traph match_all) ''a'' = Some (Inr (report, t1))"
    by (simp add: traph_add_page_def trie_eval traph_eval)
  then obtain report t1 where run:
    "traph_add_page single_variation (Traph match_all) ''a'' = Some (Inr (report, t1))"
    by blast
  from add_page_twice_same_structure [OF i run] obtain report2 t2 where
    "traph_add_page single_variation t1 ''a'' = Some (Inr (report2, t2))"
    "length (blocks (lru_trie_storage t2)) = length (blocks (lru_trie_storage t1))"
    "links_store_storage t2 = links_store_storage t1"
    "map nflags (blocks (lru_trie_storage t2)) = map nflags (blocks (lru_trie_storage t1))"
    "nb_created_pages report2 = 0"
    by blast
  with i run show ?thesis by blast
qed

end
